theory Spec2Isabelle
  imports Main "HOL-Library.Multiset" "HOL-Library.Sublist"
begin

section \<open>The port-set resolver: \<open>parsePorts\<close>\<close>

text \<open>
  A Go string is a sequence of bytes; it is modelled as a \<^typ>\<open>string\<close> whose
  characters are those bytes. The functions of the Go standard library that
  \<open>parsePorts\<close> calls (\<open>strings.Split\<close>, \<open>strings.TrimSpace\<close>, \<open>strings.Contains\<close>,
  \<open>strings.SplitN\<close>, \<open>strconv.Atoi\<close>, \<open>sort.Ints\<close>) are modelled after their documented
  behaviour, for the arguments \<open>parsePorts\<close> passes to them.
\<close>

subsection \<open>\<open>strings.Split(s, ",")\<close>, \<open>strings.Contains\<close>, \<open>strings.SplitN(p, "-", 2)\<close>\<close>

text \<open>
  \<open>Split\<close> with a one-byte separator: the fields between the separators, in order;
  a string without separator is its own single field, the empty string too.
\<close>

fun Split :: "string \<Rightarrow> char \<Rightarrow> string list" where
  "Split [] sep = [[]]"
| "Split (c # cs) sep =
     (if c = sep then [] # Split cs sep
      else (case Split cs sep of [] \<Rightarrow> [[c]] | f # fs \<Rightarrow> (c # f) # fs))"

definition Contains :: "string \<Rightarrow> char \<Rightarrow> bool" where
  "Contains p sep \<longleftrightarrow> sep \<in> set p"

text \<open>
  \<open>SplitN(p, sep, 2)\<close>: at most two fields, cut at the first separator; the second
  field is the unsplit remainder. Without a separator the result has one field.
\<close>

definition SplitN2 :: "string \<Rightarrow> char \<Rightarrow> string list" where
  "SplitN2 p sep =
     (if sep \<in> set p
      then [takeWhile (\<lambda>c. c \<noteq> sep) p, tl (dropWhile (\<lambda>c. c \<noteq> sep) p)]
      else [p])"

subsection \<open>\<open>strings.TrimSpace\<close>\<close>

text \<open>
  \<open>TrimSpace\<close> removes all leading and all trailing white space, as Unicode defines it
  (\<open>unicode.IsSpace\<close>): the six ASCII characters tab, line feed, vertical tab, form feed,
  carriage return and space, and the code points U+0085, U+00A0, U+1680,
  U+2000 to U+200A, U+2028, U+2029, U+202F, U+205F and U+3000. On the bytes of the
  string these are the following UTF-8 sequences; a byte that does not start (or end)
  one of them stops the trimming, as a rune that is not white space (or an invalid
  byte) does in Go.
\<close>

definition spaceSeqs :: "string list" where
  "spaceSeqs =
    [[CHR 0x09], [CHR 0x0A], [CHR 0x0B], [CHR 0x0C], [CHR 0x0D], [CHR 0x20],
     [CHR 0xC2, CHR 0x85], [CHR 0xC2, CHR 0xA0],
     [CHR 0xE1, CHR 0x9A, CHR 0x80],
     [CHR 0xE2, CHR 0x80, CHR 0x80], [CHR 0xE2, CHR 0x80, CHR 0x81],
     [CHR 0xE2, CHR 0x80, CHR 0x82], [CHR 0xE2, CHR 0x80, CHR 0x83],
     [CHR 0xE2, CHR 0x80, CHR 0x84], [CHR 0xE2, CHR 0x80, CHR 0x85],
     [CHR 0xE2, CHR 0x80, CHR 0x86], [CHR 0xE2, CHR 0x80, CHR 0x87],
     [CHR 0xE2, CHR 0x80, CHR 0x88], [CHR 0xE2, CHR 0x80, CHR 0x89],
     [CHR 0xE2, CHR 0x80, CHR 0x8A],
     [CHR 0xE2, CHR 0x80, CHR 0xA8], [CHR 0xE2, CHR 0x80, CHR 0xA9],
     [CHR 0xE2, CHR 0x80, CHR 0xAF],
     [CHR 0xE2, CHR 0x81, CHR 0x9F],
     [CHR 0xE3, CHR 0x80, CHR 0x80]]"

text \<open>The length of the white-space rune the string starts with, if it starts with one.\<close>

definition leadingSpace :: "string list \<Rightarrow> string \<Rightarrow> nat option" where
  "leadingSpace seqs s = map_option length (find (\<lambda>w. w \<noteq> [] \<and> prefix w s) seqs)"

function trimWith :: "string list \<Rightarrow> string \<Rightarrow> string" where
  "trimWith seqs s =
     (case leadingSpace seqs s of None \<Rightarrow> s | Some n \<Rightarrow> trimWith seqs (drop n s))"
  by pat_completeness auto
termination
proof (relation "measure (\<lambda>(seqs, s). length s)")
  show "wf (measure (\<lambda>(seqs, s). length s))" by simp
next
  fix seqs :: "string list" and s :: string and n :: nat
  assume "leadingSpace seqs s = Some n"
  then obtain w where w: "find (\<lambda>w. w \<noteq> [] \<and> prefix w s) seqs = Some w" "n = length w"
    by (auto simp: leadingSpace_def)
  then have "w \<noteq> []" "prefix w s"
    by (auto simp: find_Some_iff)
  then have "0 < n" "n \<le> length s"
    using w(2) by (auto simp: prefix_length_le)
  then show "((seqs, drop n s), (seqs, s)) \<in> measure (\<lambda>(seqs, s). length s)"
    by simp
qed

declare trimWith.simps [simp del]

definition TrimLeft :: "string \<Rightarrow> string" where
  "TrimLeft s = trimWith spaceSeqs s"

definition TrimRight :: "string \<Rightarrow> string" where
  "TrimRight s = rev (trimWith (map rev spaceSeqs) (rev s))"

definition TrimSpace :: "string \<Rightarrow> string" where
  "TrimSpace s = TrimRight (TrimLeft s)"

subsection \<open>\<open>strconv.Atoi\<close>\<close>

text \<open>
  \<open>Atoi\<close> reads an optional sign (\<open>+\<close> or \<open>-\<close>) followed by one or more decimal digits
  and nothing else; it fails on any other string (a syntax error), and on a number that
  does not fit Go's \<open>int\<close> (a range error), taken here as the 64-bit \<open>int\<close> of the
  usual platforms. Both failures are the \<open>err != nil\<close> of the caller.
\<close>

definition isDigit :: "char \<Rightarrow> bool" where
  "isDigit c \<longleftrightarrow> of_char (CHR ''0'') \<le> (of_char c :: nat) \<and> (of_char c :: nat) \<le> of_char (CHR ''9'')"

definition digitVal :: "char \<Rightarrow> int" where
  "digitVal c = int (of_char c) - int (of_char (CHR ''0''))"

fun digitsVal :: "int \<Rightarrow> string \<Rightarrow> int" where
  "digitsVal n [] = n"
| "digitsVal n (c # cs) = digitsVal (n * 10 + digitVal c) cs"

definition Atoi :: "string \<Rightarrow> int option" where
  "Atoi s =
     (let neg = (s \<noteq> [] \<and> hd s = CHR ''-'');
          ds = (if s \<noteq> [] \<and> (hd s = CHR ''-'' \<or> hd s = CHR ''+'') then tl s else s)
      in if ds = [] \<or> \<not> list_all isDigit ds then None
         else let n = digitsVal 0 ds; v = (if neg then - n else n)
              in if v < - (2 ^ 63) \<or> 2 ^ 63 - 1 < v then None else Some v)"

subsection \<open>\<open>parsePorts\<close>\<close>

text \<open>
  The four errors \<open>parsePorts\<close> returns, named after their messages:
  \<open>"invalid range: %s"\<close>, \<open>"invalid port: %s"\<close>, \<open>"invalid range bounds: %s"\<close> and
  \<open>"port out of range: %d"\<close>, each with the value the message prints.
\<close>

datatype error =
    InvalidRangeSyntax string
  | InvalidPort string
  | InvalidRangeBounds string
  | PortOutOfRange int

text \<open>
  The error kinds of the specification: \<open>InvalidPort\<close> (a token is not a valid integer),
  \<open>PortOutOfRange\<close> (a parsed integer lies outside 1..65535) and \<open>InvalidRange\<close>
  (a range token's bounds are malformed or inverted).
\<close>

datatype error_kind = KInvalidPort | KPortOutOfRange | KInvalidRange

fun kind :: "error \<Rightarrow> error_kind" where
  "kind (InvalidRangeSyntax p) = KInvalidRange"
| "kind (InvalidPort p) = KInvalidPort"
| "kind (InvalidRangeBounds p) = KInvalidRange"
| "kind (PortOutOfRange n) = KPortOutOfRange"

text \<open>
  The map \<open>set\<close> of type \<open>map[int]struct{}\<close> is a set of integers. The loop
  \<open>for i := start; i <= end; i++ { set[i] = struct{}{} }\<close>:
\<close>

function addRange :: "int \<Rightarrow> int \<Rightarrow> int set \<Rightarrow> int set" where
  "addRange i end S = (if i \<le> end then addRange (i + 1) end (insert i S) else S)"
  by pat_completeness auto
termination
  by (relation "measure (\<lambda>(i, end, S). nat (end + 1 - i))") auto

declare addRange.simps [simp del]

text \<open>The body of the loop over the parts, for one part and the set built so far.\<close>

definition addPart :: "int set \<Rightarrow> string \<Rightarrow> error + int set" where
  "addPart S part =
     (let p = TrimSpace part in
      if p = [] then Inr S
      else if Contains p (CHR ''-'') then
        (let bounds = SplitN2 p (CHR ''-'') in
         if length bounds \<noteq> 2 then Inl (InvalidRangeSyntax p)
         else (case Atoi (TrimSpace (bounds ! 0)) of
                 None \<Rightarrow> Inl (InvalidPort (bounds ! 0))
               | Some start \<Rightarrow>
                   (case Atoi (TrimSpace (bounds ! 1)) of
                      None \<Rightarrow> Inl (InvalidPort (bounds ! 1))
                    | Some end \<Rightarrow>
                        if start < 1 \<or> end < 1 \<or> start > 65535 \<or> end > 65535 \<or> start > end
                        then Inl (InvalidRangeBounds p)
                        else Inr (addRange start end S))))
      else (case Atoi p of
              None \<Rightarrow> Inl (InvalidPort p)
            | Some n \<Rightarrow>
                if n < 1 \<or> n > 65535 then Inl (PortOutOfRange n)
                else Inr (insert n S)))"

fun addParts :: "int set \<Rightarrow> string list \<Rightarrow> error + int set" where
  "addParts S [] = Inr S"
| "addParts S (part # parts) =
     (case addPart S part of Inl e \<Rightarrow> Inl e | Inr S' \<Rightarrow> addParts S' parts)"

text \<open>
  The keys of the map are collected in the map's iteration order, which Go leaves
  unspecified, and sorted with \<open>sort.Ints\<close>: the result is the ascending list of the set,
  whatever the iteration order was (lemma \<open>sort_keys\<close> below).
\<close>

definition parsePorts :: "string \<Rightarrow> error + int list" where
  "parsePorts spec =
     (case addParts {} (Split spec (CHR '','')) of
        Inl e \<Rightarrow> Inl e
      | Inr S \<Rightarrow> Inr (sorted_list_of_set S))"

section \<open>The scan engine: the body of \<open>main\<close> from the channels on\<close>

text \<open>
  The engine is a concurrent program: \<open>numWorkers\<close> goroutines running \<open>worker\<close>, one
  goroutine that sends the ports and closes \<open>portsCh\<close> (the distributor), one that waits
  for the wait group and closes \<open>resultsCh\<close> (the coordinator), and \<open>main\<close> itself, which
  collects the results. It is modelled as a transition system: a state holds the two
  channels, the wait group's counter and the place each goroutine has reached; an
  action is one atomic step of one goroutine, enabled or not in a state; a run is any
  sequence of enabled actions, so that every interleaving the Go scheduler may choose is
  a run. Nothing is assumed of the scheduler (no fairness).

  A channel is its buffer, its capacity and whether it was closed.
\<close>

record chan =
  buf :: "int list"
  cap :: nat
  closed :: bool

text \<open>\<open>make(chan int, n)\<close>; \<open>make(chan int)\<close> is \<open>make_chan 0\<close>.\<close>

definition make_chan :: "nat \<Rightarrow> chan" where
  "make_chan n = \<lparr>buf = [], cap = n, closed = False\<rparr>"

text \<open>
  Where a \<open>worker\<close> goroutine stands: at the receive of \<open>for p := range ports\<close>; holding
  a port \<open>p\<close> it is about to dial; blocked at \<open>results <- p\<close> after a successful dial;
  returned (its deferred \<open>wg.Done()\<close> has run).
\<close>

datatype worker = Receiving | Dialing int | Sending int | Returned

text \<open>
  The state. \<open>pending\<close> is what the distributor's loop \<open>for _, p := range ports\<close> has
  still to send; the distributor has finished exactly when \<open>portsCh\<close> is closed, and the
  coordinator exactly when \<open>resultsCh\<close> is closed. \<open>open_ports\<close> is \<open>main\<close>'s slice
  \<open>open\<close>; \<open>result\<close> is \<open>None\<close> while \<open>main\<close> is in its loop over \<open>resultsCh\<close> and the
  sorted slice once it has left it. \<open>dialed\<close> is not a variable of the program: it logs
  the ports passed to \<open>net.DialTimeout\<close>, in the order of the calls.
\<close>

record engine =
  portsCh :: chan
  resultsCh :: chan
  wg :: nat
  numWorkers :: int
  workers :: "worker list"
  ports :: "int list"
  pending :: "int list"
  open_ports :: "int list"
  result :: "int list option"
  dialed :: "int list"

text \<open>
  The state once \<open>main\<close> has made the channels and started every goroutine (lines
  131 to 155), for the value of \<open>*workersFlag\<close> and the resolved ports. Before the
  distributor runs \<open>portsCh\<close> is empty and open, so a worker started earlier can only
  wait at its receive: starting the goroutines one by one reaches no other state.
  Every \<open>wg.Add(1)\<close> precedes the start of the coordinator.
\<close>

definition start :: "int \<Rightarrow> int list \<Rightarrow> engine" where
  "start requested ps =
     (let n = (if requested > int (length ps) then int (length ps) else requested)
      in \<lparr>portsCh = make_chan (nat requested),
          resultsCh = make_chan 0,
          wg = nat n,
          numWorkers = n,
          workers = replicate (nat n) Receiving,
          ports = ps,
          pending = ps,
          open_ports = [],
          result = None,
          dialed = []\<rparr>)"

text \<open>
  The atomic steps. \<open>Distribute\<close>: the distributor's \<open>portsCh <- p\<close>, possible while the
  buffer has room. \<open>CloseJobs\<close>: its \<open>close(portsCh)\<close> after the loop. \<open>Receive i\<close>:
  worker \<open>i\<close> takes the oldest port of the buffer. \<open>Dial i\<close>: worker \<open>i\<close> calls
  \<open>net.DialTimeout\<close>; the call succeeds where the oracle \<open>accept\<close> says so (the host and
  the timeout are fixed for a run), and the worker goes on to send the port or back to
  its receive. \<open>Report i\<close>: the send \<open>results <- p\<close> of worker \<open>i\<close> meets \<open>main\<close>'s
  receive; \<open>resultsCh\<close> has no buffer, so both happen as one step, and \<open>main\<close> appends
  the port. \<open>Leave i\<close>: worker \<open>i\<close> finds \<open>portsCh\<close> closed and drained, leaves its loop
  and runs \<open>wg.Done()\<close>. \<open>CloseResults\<close>: the coordinator's \<open>wg.Wait()\<close> returns, the
  counter being zero, and it closes \<open>resultsCh\<close>. \<open>Finish\<close>: \<open>main\<close> finds \<open>resultsCh\<close>
  closed, leaves its loop and sorts \<open>open\<close>.

  A step that is not enabled is \<open>None\<close>. A send on \<open>portsCh\<close> with the buffer full and a
  receive on an empty open channel block, and are not enabled; a send into a buffer of
  capacity 0 is never enabled here (\<open>main\<close> refuses a worker count below 1, so the
  capacity of \<open>portsCh\<close> is at least 1).
\<close>

datatype action =
    Distribute
  | CloseJobs
  | Receive nat
  | Dial nat
  | Report nat
  | Leave nat
  | CloseResults
  | Finish

fun step :: "(int \<Rightarrow> bool) \<Rightarrow> action \<Rightarrow> engine \<Rightarrow> engine option" where
  "step accept Distribute e =
     (case pending e of
        [] \<Rightarrow> None
      | p # rest \<Rightarrow>
          if closed (portsCh e) \<or> length (buf (portsCh e)) \<ge> cap (portsCh e) then None
          else Some (e\<lparr>portsCh := (portsCh e)\<lparr>buf := buf (portsCh e) @ [p]\<rparr>, pending := rest\<rparr>))"
| "step accept CloseJobs e =
     (if pending e = [] \<and> \<not> closed (portsCh e)
      then Some (e\<lparr>portsCh := (portsCh e)\<lparr>closed := True\<rparr>\<rparr>)
      else None)"
| "step accept (Receive i) e =
     (if i < length (workers e) \<and> workers e ! i = Receiving
      then (case buf (portsCh e) of
              [] \<Rightarrow> None
            | p # rest \<Rightarrow>
                Some (e\<lparr>portsCh := (portsCh e)\<lparr>buf := rest\<rparr>,
                        workers := (workers e)[i := Dialing p]\<rparr>))
      else None)"
| "step accept (Dial i) e =
     (if i < length (workers e)
      then (case workers e ! i of
              Dialing p \<Rightarrow>
                Some (e\<lparr>dialed := dialed e @ [p],
                        workers := (workers e)[i := (if accept p then Sending p else Receiving)]\<rparr>)
            | _ \<Rightarrow> None)
      else None)"
| "step accept (Report i) e =
     (if i < length (workers e)
      then (case workers e ! i of
              Sending p \<Rightarrow>
                if result e = None \<and> \<not> closed (resultsCh e)
                then Some (e\<lparr>open_ports := open_ports e @ [p],
                             workers := (workers e)[i := Receiving]\<rparr>)
                else None
            | _ \<Rightarrow> None)
      else None)"
| "step accept (Leave i) e =
     (if i < length (workers e) \<and> workers e ! i = Receiving
         \<and> buf (portsCh e) = [] \<and> closed (portsCh e)
      then Some (e\<lparr>workers := (workers e)[i := Returned], wg := wg e - 1\<rparr>)
      else None)"
| "step accept CloseResults e =
     (if wg e = 0 \<and> \<not> closed (resultsCh e)
      then Some (e\<lparr>resultsCh := (resultsCh e)\<lparr>closed := True\<rparr>\<rparr>)
      else None)"
| "step accept Finish e =
     (if result e = None \<and> closed (resultsCh e) \<and> buf (resultsCh e) = []
      then Some (e\<lparr>result := Some (sort (open_ports e))\<rparr>)
      else None)"

fun exec :: "(int \<Rightarrow> bool) \<Rightarrow> action list \<Rightarrow> engine \<Rightarrow> engine option" where
  "exec accept [] e = Some e"
| "exec accept (a # as) e =
     (case step accept a e of None \<Rightarrow> None | Some e' \<Rightarrow> exec accept as e')"

subsection \<open>Quantities and invariants of the engine\<close>

text \<open>
  The port a worker holds between its receive and its dial, and the port it holds
  between a successful dial and its send.
\<close>

fun holds_dial :: "worker \<Rightarrow> int list" where
  "holds_dial (Dialing p) = [p]"
| "holds_dial _ = []"

fun holds_send :: "worker \<Rightarrow> int list" where
  "holds_send (Sending p) = [p]"
| "holds_send _ = []"

text \<open>
  A bound on the steps an engine can still take: every port is sent, received, dialed
  and reported at most once each, every worker returns once, each channel is closed once
  and \<open>main\<close> leaves its loop once.
\<close>

fun weight :: "worker \<Rightarrow> nat" where
  "weight Receiving = 1"
| "weight (Dialing p) = 3"
| "weight (Sending p) = 2"
| "weight Returned = 0"

definition steps_left :: "engine \<Rightarrow> nat" where
  "steps_left e =
     4 * length (pending e) + 3 * length (buf (portsCh e)) + sum_list (map weight (workers e))
     + (if closed (portsCh e) then 0 else 1)
     + (if closed (resultsCh e) then 0 else 1)
     + (if result e = None then 1 else 0)"

text \<open>
  The invariants: the fixed shape of the state (capacities, worker count); the order of
  the shutdown (who closed what after whom); where every port of the port set is; and
  where every successfully dialed port is.
\<close>

definition shape_inv :: "int \<Rightarrow> int list \<Rightarrow> engine \<Rightarrow> bool" where
  "shape_inv w ps e \<longleftrightarrow>
     cap (portsCh e) = nat w \<and> cap (resultsCh e) = 0 \<and> buf (resultsCh e) = []
     \<and> numWorkers e = min w (int (length ps)) \<and> ports e = ps
     \<and> length (workers e) = nat (numWorkers e)
     \<and> length (buf (portsCh e)) \<le> cap (portsCh e)"

definition order_inv :: "engine \<Rightarrow> bool" where
  "order_inv e \<longleftrightarrow>
     wg e = length (filter (\<lambda>x. x \<noteq> Returned) (workers e))
     \<and> (closed (portsCh e) \<longrightarrow> pending e = [])
     \<and> (Returned \<in> set (workers e) \<longrightarrow> closed (portsCh e) \<and> buf (portsCh e) = [])
     \<and> (closed (resultsCh e) \<longrightarrow> wg e = 0)
     \<and> (result e \<noteq> None \<longrightarrow> closed (resultsCh e) \<and> result e = Some (sort (open_ports e)))"

definition jobs_inv :: "int list \<Rightarrow> engine \<Rightarrow> bool" where
  "jobs_inv ps e \<longleftrightarrow>
     mset (pending e) + mset (buf (portsCh e)) + mset (concat (map holds_dial (workers e)))
       + mset (dialed e) = mset ps"

definition results_inv :: "(int \<Rightarrow> bool) \<Rightarrow> engine \<Rightarrow> bool" where
  "results_inv accept e \<longleftrightarrow>
     mset (open_ports e) + mset (concat (map holds_send (workers e)))
       = mset (filter accept (dialed e))"

definition engine_inv :: "(int \<Rightarrow> bool) \<Rightarrow> int \<Rightarrow> int list \<Rightarrow> engine \<Rightarrow> bool" where
  "engine_inv accept w ps e \<longleftrightarrow>
     shape_inv w ps e \<and> order_inv e \<and> jobs_inv ps e \<and> results_inv accept e"

section \<open>\<open>main\<close>: validation, short circuit, report\<close>

text \<open>The four flags, as \<open>flag.Parse\<close> leaves them.\<close>

record flags =
  hostFlag :: string
  portsFlag :: string
  workersFlag :: int
  timeoutFlag :: int

text \<open>The lines \<open>main\<close> writes to the standard error before it exits.\<close>

datatype message =
    HostRequired
  | WorkersNotPositive
  | WorkersTooLarge
  | ParseError error
  | NoPortsToScan

text \<open>
  \<open>main\<close> up to the engine: either the process exits with a code and a message, or the
  engine is started.
\<close>

datatype outcome = Exit int message | Scan engine

definition main :: "flags \<Rightarrow> outcome" where
  "main f =
     (if hostFlag f = [] then Exit 2 HostRequired
      else if workersFlag f \<le> 0 then Exit 2 WorkersNotPositive
      else if workersFlag f > 10000 then Exit 2 WorkersTooLarge
      else (case parsePorts (portsFlag f) of
              Inl err \<Rightarrow> Exit 2 (ParseError err)
            | Inr ps \<Rightarrow>
                if length ps = 0 then Exit 0 NoPortsToScan
                else Scan (start (workersFlag f) ps)))"



section \<open>Notions used in the statements\<close>

text \<open>The error kind of a failed result, in the terms of the specification.\<close>

definition errorKind :: "error + 'a \<Rightarrow> error_kind option" where
  "errorKind r = (case r of Inl e \<Rightarrow> Some (kind e) | Inr _ \<Rightarrow> None)"

text \<open>
  The ports a token names, as the specification reads a token: a single token names the
  integer it parses to, a range token \<open>a-b\<close> every integer from \<open>a\<close> to \<open>b\<close>; a token that
  does not parse names none.
\<close>

definition names :: "string \<Rightarrow> int \<Rightarrow> bool" where
  "names part n \<longleftrightarrow>
     (let p = TrimSpace part in
      if Contains p (CHR ''-'') then
        (case SplitN2 p (CHR ''-'') of
           [a, b] \<Rightarrow>
             (case Atoi (TrimSpace a) of
                None \<Rightarrow> False
              | Some x \<Rightarrow> (case Atoi (TrimSpace b) of None \<Rightarrow> False | Some y \<Rightarrow> x \<le> n \<and> n \<le> y))
         | _ \<Rightarrow> False)
      else Atoi p = Some n)"

text \<open>
  The specification made of given tokens, a comma between each two (\<open>strings.Join\<close>):
  permuting the tokens of a specification is joining a permutation of them.
\<close>

fun Join :: "string list \<Rightarrow> char \<Rightarrow> string" where
  "Join [] sep = []"
| "Join [t] sep = t"
| "Join (t # u # ts) sep = t @ sep # Join (u # ts) sep"

text \<open>A string that consists of white space only: a sequence of white-space runes.\<close>

inductive allSpace :: "string \<Rightarrow> bool" where
  allSpace_Nil: "allSpace []"
| allSpace_Cons: "w \<in> set spaceSeqs \<Longrightarrow> allSpace s \<Longrightarrow> allSpace (w @ s)"

text \<open>A specification that is empty or consists of white space and commas only.\<close>

inductive blankSpec :: "string \<Rightarrow> bool" where
  blank_Nil: "blankSpec []"
| blank_comma: "blankSpec s \<Longrightarrow> blankSpec (CHR '','' # s)"
| blank_space: "w \<in> set spaceSeqs \<Longrightarrow> blankSpec s \<Longrightarrow> blankSpec (w @ s)"


section \<open>The resolver: lemmas\<close>

lemma addRange_eq: "addRange i e S = S \<union> {i..e}"
proof (induction i e S rule: addRange.induct)
  case (1 i e S)
  show ?case
  proof (cases "i \<le> e")
    case True
    have "{i..e} = insert i {i + 1..e}" using True by auto
    with 1 True show ?thesis by (subst addRange.simps) auto
  next
    case False
    then show ?thesis by (subst addRange.simps) simp
  qed
qed

lemma sort_keys: "distinct ks \<Longrightarrow> set ks = S \<Longrightarrow> sort ks = sorted_list_of_set S"
  by (metis sorted_list_of_set_sort_remdups distinct_remdups_id)

lemma sorted_list_of_set_interval: "sorted_list_of_set {a..b::int} = [a..b]"
proof -
  have "sorted_list_of_set (set [a..b]) = [a..b]"
    by (rule sorted_list_of_set.idem_if_sorted_distinct) simp_all
  then show ?thesis by simp
qed


lemma addPart_union:
  "addPart S part = (case addPart {} part of Inl e \<Rightarrow> Inl e | Inr T \<Rightarrow> Inr (S \<union> T))"
  by (simp add: addPart_def Let_def addRange_eq split: option.splits)

lemma addParts_Inr_iff:
  "addParts S parts = Inr S' \<longleftrightarrow>
     (\<forall>p \<in> set parts. \<exists>T. addPart {} p = Inr T) \<and>
     S' = S \<union> \<Union> {T. \<exists>p \<in> set parts. addPart {} p = Inr T}"
proof (induction parts arbitrary: S)
  case Nil
  then show ?case by auto
next
  case (Cons p ps)
  show ?case
  proof (cases "addPart {} p")
    case (Inl e)
    then have "addPart S p = Inl e" by (subst addPart_union) simp
    then show ?thesis using Inl by auto
  next
    case (Inr T)
    then have "addPart S p = Inr (S \<union> T)" by (subst addPart_union) simp
    then show ?thesis using Inr Cons.IH[of "S \<union> T"] by auto
  qed
qed

lemma parsePorts_Inr_iff:
  "parsePorts spec = Inr ps \<longleftrightarrow>
     (\<forall>p \<in> set (Split spec (CHR '','')). \<exists>T. addPart {} p = Inr T) \<and>
     ps = sorted_list_of_set (\<Union> {T. \<exists>p \<in> set (Split spec (CHR '','')). addPart {} p = Inr T})"
proof (cases "addParts {} (Split spec (CHR '',''))")
  case (Inl e)
  then show ?thesis
    using addParts_Inr_iff[of "{}" "Split spec (CHR '','')"]
    by (auto simp: parsePorts_def)
next
  case (Inr S)
  then show ?thesis
    using addParts_Inr_iff[of "{}" "Split spec (CHR '','')" S]
    by (auto simp: parsePorts_def)
qed

lemma addPart_finite: "addPart S part = Inr S' \<Longrightarrow> finite S \<Longrightarrow> finite S'"
  by (auto simp: addPart_def Let_def addRange_eq split: option.splits if_splits)

lemma addParts_finite: "addParts S parts = Inr S' \<Longrightarrow> finite S \<Longrightarrow> finite S'"
  by (induction parts arbitrary: S) (auto split: sum.splits dest: addPart_finite)

lemma addPart_range: "addPart S part = Inr S' \<Longrightarrow> S \<subseteq> {1..65535} \<Longrightarrow> S' \<subseteq> {1..65535}"
  by (auto simp: addPart_def Let_def addRange_eq split: option.splits if_splits)

lemma addParts_range: "addParts S parts = Inr S' \<Longrightarrow> S \<subseteq> {1..65535} \<Longrightarrow> S' \<subseteq> {1..65535}"
proof (induction parts arbitrary: S)
  case Nil then show ?case by simp
next
  case (Cons p ps)
  then show ?case by (auto split: sum.splits dest!: addPart_range)
qed

lemma parsePorts_sorted_distinct:
  assumes "parsePorts spec = Inr ps"
  shows "sorted ps" "distinct ps" "set ps \<subseteq> {1..65535}"
proof -
  from assms obtain S where S: "addParts {} (Split spec (CHR '','')) = Inr S" "ps = sorted_list_of_set S"
    by (auto simp: parsePorts_def split: sum.splits)
  have "finite S" using addParts_finite[OF S(1)] by simp
  moreover have "S \<subseteq> {1..65535}" using addParts_range[OF S(1)] by simp
  ultimately show "sorted ps" "distinct ps" "set ps \<subseteq> {1..65535}" using S(2) by simp_all
qed




lemma trimWith_Nil: "trimWith seqs [] = []"
proof -
  have "find (\<lambda>w. w \<noteq> [] \<and> prefix w []) seqs = None"
    by (simp add: find_None_iff)
  then show ?thesis
    by (subst trimWith.simps) (simp add: leadingSpace_def)
qed

lemma leadingSpace_space:
  "w \<in> set spaceSeqs \<Longrightarrow> leadingSpace spaceSeqs (w @ s) = Some (length w)"
proof -
  have "\<forall>w \<in> set spaceSeqs. leadingSpace spaceSeqs (w @ s) = Some (length w)"
    unfolding spaceSeqs_def leadingSpace_def by simp
  then show "w \<in> set spaceSeqs \<Longrightarrow> leadingSpace spaceSeqs (w @ s) = Some (length w)"
    by blast
qed


lemma trimWith_space: "w \<in> set spaceSeqs \<Longrightarrow> trimWith spaceSeqs (w @ s) = trimWith spaceSeqs s"
  by (subst trimWith.simps) (simp add: leadingSpace_space)


lemma TrimLeft_allSpace: "allSpace w \<Longrightarrow> TrimLeft (w @ s) = TrimLeft s"
  unfolding TrimLeft_def by (induction rule: allSpace.induct) (simp_all add: trimWith_space)

lemma allSpace_append: "allSpace u \<Longrightarrow> allSpace v \<Longrightarrow> allSpace (u @ v)"
  by (induction rule: allSpace.induct) (auto intro: allSpace.intros)

lemma allSpace_snoc: "allSpace s \<Longrightarrow> w \<in> set spaceSeqs \<Longrightarrow> allSpace (s @ w)"
  using allSpace_append[of s w] allSpace_Cons[of w "[]"] allSpace_Nil by simp



lemma TrimSpace_allSpace: "allSpace w \<Longrightarrow> TrimSpace w = []"
  using TrimLeft_allSpace[of w "[]"] by (simp add: TrimSpace_def TrimLeft_def TrimRight_def trimWith_Nil)










lemma TrimLeft_Nil: "TrimLeft [] = []"
  by (simp add: TrimLeft_def trimWith_Nil)

lemma TrimRight_Nil: "TrimRight [] = []"
  by (simp add: TrimRight_def trimWith_Nil)





lemma Split_nonempty: "Split s sep \<noteq> []"
  by (induction s) (auto split: list.splits)

lemma Split_no_sep: "sep \<notin> set s \<Longrightarrow> Split s sep = [s]"
  by (induction s) auto

lemma Split_append_sep: "sep \<notin> set a \<Longrightarrow> Split (a @ sep # b) sep = a # Split b sep"
  by (induction a) auto

lemma Split_Join:
  "ts \<noteq> [] \<Longrightarrow> \<forall>t \<in> set ts. sep \<notin> set t \<Longrightarrow> Split (Join ts sep) sep = ts"
proof (induction ts sep rule: Join.induct)
  case (1 sep)
  then show ?case by simp
next
  case (2 t sep)
  then show ?case by (simp add: Split_no_sep)
next
  case (3 t u ts sep)
  then have "Split (Join (u # ts) sep) sep = u # ts" by simp
  moreover have "sep \<notin> set t" using 3 by simp
  ultimately show ?case by (simp add: Split_append_sep)
qed

lemma Split_append: "sep \<notin> set a \<Longrightarrow> Split (a @ b) sep = (a @ hd (Split b sep)) # tl (Split b sep)"
proof (induction a)
  case Nil
  then show ?case using Split_nonempty[of b sep] by simp
next
  case (Cons c a)
  then show ?case by auto
qed


lemma space_bytes:
  "w \<in> set spaceSeqs \<Longrightarrow> c \<in> set w \<Longrightarrow> \<not> isDigit c \<and> c \<noteq> CHR ''-'' \<and> c \<noteq> CHR ''+'' \<and> c \<noteq> CHR '',''"
  by (auto simp: isDigit_def spaceSeqs_def)



lemma addParts_append:
  "addParts S (xs @ ys) = (case addParts S xs of Inl e \<Rightarrow> Inl e | Inr S' \<Rightarrow> addParts S' ys)"
  by (induction xs arbitrary: S) (auto split: sum.splits)

lemma parsePorts_first_error:
  assumes "Split spec (CHR '','') = pre @ part # post" "addParts {} pre = Inr S" "addPart S part = Inl e"
  shows "parsePorts spec = Inl e"
  using assms by (simp add: parsePorts_def addParts_append)

lemma parsePorts_part_subset:
  assumes "Split spec (CHR '','') = pre @ part # post" "addParts {} pre = Inr S" "addPart S part = Inr (S \<union> T)"
    "parsePorts spec = Inr ps"
  shows "T \<subseteq> set ps"
proof -
  from assms(4) obtain S' where S': "addParts {} (Split spec (CHR '','')) = Inr S'" "ps = sorted_list_of_set S'"
    by (auto simp: parsePorts_def split: sum.splits)
  have fin: "finite S'" using addParts_finite[OF S'(1)] by simp
  have "addParts (S \<union> T) post = Inr S'"
    using S'(1) assms(1,2,3) by (simp add: addParts_append)
  then have "S \<union> T \<subseteq> S'" by (auto simp: addParts_Inr_iff)
  then show ?thesis using fin S'(2) by auto
qed

lemma addPart_range_token:
  assumes "TrimSpace part = p" "p \<noteq> []" "Contains p (CHR ''-'')" "SplitN2 p (CHR ''-'') = [a, b]"
  shows "addPart S part =
    (case Atoi (TrimSpace a) of
       None \<Rightarrow> Inl (InvalidPort a)
     | Some lo \<Rightarrow>
        (case Atoi (TrimSpace b) of
           None \<Rightarrow> Inl (InvalidPort b)
         | Some hi \<Rightarrow>
             if lo < 1 \<or> hi < 1 \<or> lo > 65535 \<or> hi > 65535 \<or> lo > hi
             then Inl (InvalidRangeBounds p)
             else Inr (S \<union> {lo..hi})))"
  using assms by (simp add: addPart_def Let_def addRange_eq split: option.splits)

lemma addPart_single_token:
  assumes "TrimSpace part = p" "p \<noteq> []" "\<not> Contains p (CHR ''-'')"
  shows "addPart S part =
    (case Atoi p of
       None \<Rightarrow> Inl (InvalidPort p)
     | Some n \<Rightarrow> if n < 1 \<or> n > 65535 then Inl (PortOutOfRange n) else Inr (insert n S))"
  using assms by (simp add: addPart_def Let_def)










lemma blankSpec_parts: "blankSpec s \<Longrightarrow> part \<in> set (Split s (CHR '','')) \<Longrightarrow> allSpace part"
proof (induction arbitrary: part rule: blankSpec.induct)
  case blank_Nil
  then show ?case by (simp add: allSpace_Nil)
next
  case (blank_comma s)
  then show ?case by (auto simp: allSpace_Nil)
next
  case (blank_space w s)
  have "CHR '','' \<notin> set w" using space_bytes[OF blank_space.hyps(1)] by blast
  then have eq: "Split (w @ s) (CHR '','') = (w @ hd (Split s (CHR '',''))) # tl (Split s (CHR '',''))"
    by (rule Split_append)
  have ne: "Split s (CHR '','') \<noteq> []" by (rule Split_nonempty)
  from blank_space.prems eq consider "part = w @ hd (Split s (CHR '',''))" | "part \<in> set (tl (Split s (CHR '','')))"
    by auto
  then show ?case
  proof cases
    case 1
    have "allSpace (hd (Split s (CHR '','')))" using blank_space.IH ne by simp
    then show ?thesis using 1 blank_space.hyps(1) by (simp add: allSpace_Cons)
  next
    case 2
    then have "part \<in> set (Split s (CHR '',''))" using ne by (auto dest: list.set_sel(2))
    then show ?thesis by (rule blank_space.IH)
  qed
qed

lemma addParts_blank: "\<forall>part \<in> set parts. allSpace part \<Longrightarrow> addParts S parts = Inr S"
  by (induction parts) (simp_all add: addPart_def TrimSpace_allSpace)

lemma parsePorts_blank: "blankSpec spec \<Longrightarrow> parsePorts spec = Inr []"
  using addParts_blank[of "Split spec (CHR '','')" "{}"] blankSpec_parts[of spec]
  by (simp add: parsePorts_def)

lemma eval_443_80: "parsePorts ''443,80'' = Inr [80, 443]" by code_simp
lemma eval_80_443: "parsePorts ''80,443'' = Inr [80, 443]" by code_simp
lemma eval_20_22_21: "parsePorts ''20-22,21'' = Inr [20, 21, 22]" by code_simp

lemma eval_0: "parsePorts ''0'' = Inl (PortOutOfRange 0)" by code_simp
lemma eval_65536: "parsePorts ''65536'' = Inl (PortOutOfRange 65536)" by code_simp
lemma eval_5_3: "parsePorts ''5-3'' = Inl (InvalidRangeBounds ''5-3'')" by code_simp

lemma eval_full_range: "parsePorts ''1-65535'' = Inr [1..65535]"
proof -
  have s: "Split ''1-65535'' (CHR '','') = [''1-65535'']" by code_simp
  have t: "TrimSpace ''1-65535'' = ''1-65535''" by code_simp
  have c: "Contains ''1-65535'' (CHR ''-'')" by code_simp
  have n: "SplitN2 ''1-65535'' (CHR ''-'') = [''1'', ''65535'']" by code_simp
  have a: "Atoi (TrimSpace ''1'') = Some 1" by code_simp
  have b: "Atoi (TrimSpace ''65535'') = Some 65535" by code_simp
  have "addPart {} ''1-65535'' = Inr ({} \<union> {1..65535})"
    using addPart_range_token[OF t _ c n, of "{}"] a b by simp
  then show ?thesis
    by (simp add: parsePorts_def s sorted_list_of_set_interval)
qed

lemma count_distinct: "distinct ys \<Longrightarrow> count (mset ys) a = (if a \<in> set ys then 1 else 0)"
  by (simp add: distinct_count_atmost_1)

lemma Atoi_Nil: "Atoi [] = None"
  by (simp add: Atoi_def)

lemma addPart_names:
  assumes "addPart {} part = Inr T"
  shows "T = {n. names part n}"
proof (cases "TrimSpace part = []")
  case True
  then show ?thesis using assms by (auto simp: addPart_def names_def Contains_def Atoi_Nil)
next
  case False
  show ?thesis
  proof (cases "Contains (TrimSpace part) (CHR ''-'')")
    case True
    then obtain a b where ab: "SplitN2 (TrimSpace part) (CHR ''-'') = [a, b]"
      by (auto simp: SplitN2_def Contains_def)
    show ?thesis
      using assms addPart_range_token[OF refl False True ab, of "{}"] True ab
      by (auto simp: names_def split: option.splits if_splits)
  next
    case nc: False
    show ?thesis
      using assms addPart_single_token[OF refl False nc, of "{}"] nc
      by (auto simp: names_def split: option.splits if_splits)
  qed
qed

lemma parsePorts_set:
  assumes "parsePorts spec = Inr ps"
  shows "set ps = {n. \<exists>part \<in> set (Split spec (CHR '','')). names part n}"
proof -
  from assms obtain S where S: "addParts {} (Split spec (CHR '','')) = Inr S"
    "ps = sorted_list_of_set S"
    by (auto simp: parsePorts_def split: sum.splits)
  have fin: "finite S" using addParts_finite[OF S(1)] by simp
  have ok: "\<forall>p \<in> set (Split spec (CHR '','')). \<exists>T. addPart {} p = Inr T"
    and U: "S = \<Union> {T. \<exists>p \<in> set (Split spec (CHR '','')). addPart {} p = Inr T}"
    using S(1) by (auto simp: addParts_Inr_iff)
  have "S = {n. \<exists>part \<in> set (Split spec (CHR '','')). names part n}"
  proof (intro set_eqI iffI)
    fix n assume "n \<in> S"
    then obtain T p where "p \<in> set (Split spec (CHR '',''))" "addPart {} p = Inr T" "n \<in> T"
      using U by auto
    then show "n \<in> {n. \<exists>part \<in> set (Split spec (CHR '','')). names part n}"
      using addPart_names by blast
  next
    fix n assume "n \<in> {n. \<exists>part \<in> set (Split spec (CHR '','')). names part n}"
    then obtain p where p: "p \<in> set (Split spec (CHR '',''))" "names p n" by auto
    then obtain T where T: "addPart {} p = Inr T" using ok by blast
    then have "n \<in> T" using addPart_names[OF T] p(2) by simp
    then show "n \<in> S" using U p(1) T by blast
  qed
  then show ?thesis using S(2) fin by simp
qed

lemma parsePorts_count:
  assumes "parsePorts spec = Inr ps"
  shows "count_list ps n = (if \<exists>part \<in> set (Split spec (CHR '','')). names part n then 1 else 0)"
proof -
  have d: "distinct ps" by (rule parsePorts_sorted_distinct(2)[OF assms])
  have "count_list ps n = count (mset ps) n" by (simp add: count_mset)
  also have "\<dots> = (if n \<in> set ps then 1 else 0)" by (rule count_distinct[OF d])
  finally show ?thesis using parsePorts_set[OF assms] by simp
qed

lemma Atoi_overflow:
  assumes "list_all isDigit ds" "2 ^ 63 - 1 < digitsVal 0 ds"
  shows "Atoi ds = None"
proof -
  have ne: "ds \<noteq> []" using assms(2) by auto
  then obtain c cs where ds: "ds = c # cs" by (cases ds) auto
  then have "isDigit c" using assms(1) by simp
  then have c: "c \<noteq> CHR ''-''" "c \<noteq> CHR ''+''" by (auto simp: isDigit_def)
  show ?thesis using assms c ds by (simp add: Atoi_def Let_def)
qed

lemma eval_long: "parsePorts ''99999999999999999999'' = Inl (InvalidPort ''99999999999999999999'')"
  by code_simp

lemma eval_long_range:
  "parsePorts ''1-99999999999999999999'' = Inl (InvalidPort ''99999999999999999999'')"
  by code_simp

lemma eval_overlap: "parsePorts ''8080,8079-8081'' = Inr [8079, 8080, 8081]"
  by code_simp

lemma eval_long_digits:
  "list_all isDigit ''99999999999999999999''
   \<and> digitsVal 0 ''99999999999999999999'' = 99999999999999999999"
  by code_simp

section \<open>The resolver: claims\<close>

text \<open>
  Claim C5. \<open>parsePorts\<close> is independent of the order of the tokens and collapses
  overlaps: if a specification resolves to \<open>ps\<close>, every specification with the same
  comma-separated tokens in another order (the same multiset of tokens) resolves to the
  same \<open>ps\<close>. \<open>ps\<close> is ascending, and its ports are exactly the ports some token names,
  each of them exactly once: a port that a literal names and an overlapping range names
  too is in \<open>ps\<close> once. Said with the tokens themselves: if the tokens \<open>ts\<close> joined by
  commas resolve to \<open>qs\<close>, any permutation of \<open>ts\<close> joined by commas does. In particular
  \<open>"443,80"\<close> and \<open>"80,443"\<close> both resolve to \<open>[80, 443]\<close>, and \<open>"20-22,21"\<close> resolves
  to \<open>[20, 21, 22]\<close>.
\<close>

theorem parsePorts_order_independent:
  assumes "parsePorts spec = Inr ps"
    and "mset (Split spec' (CHR '','')) = mset (Split spec (CHR '',''))"
  shows "parsePorts spec' = Inr ps \<and> sorted ps \<and> distinct ps
       \<and> (ts \<noteq> [] \<and> (\<forall>t \<in> set ts. CHR '','' \<notin> set t) \<and> mset ts' = mset ts
            \<and> parsePorts (Join ts (CHR '','')) = Inr qs
          \<longrightarrow> parsePorts (Join ts' (CHR '','')) = Inr qs)
       \<and> parsePorts ''443,80'' = Inr [80, 443] \<and> parsePorts ''80,443'' = Inr [80, 443]
       \<and> parsePorts ''20-22,21'' = Inr [20, 21, 22]
       \<and> set ps = {n. \<exists>part \<in> set (Split spec (CHR '','')). names part n}
       \<and> (\<forall>n. count_list ps n
              = (if \<exists>part \<in> set (Split spec (CHR '','')). names part n then 1 else 0))
       \<and> (lit \<in> set (Split spec (CHR '','')) \<and> \<not> Contains (TrimSpace lit) (CHR ''-'')
            \<and> Atoi (TrimSpace lit) = Some m
            \<and> rng \<in> set (Split spec (CHR '','')) \<and> Contains (TrimSpace rng) (CHR ''-'')
            \<and> names rng m
          \<longrightarrow> m \<in> set ps \<and> count_list ps m = 1)"
proof -
  have same: "parsePorts s' = Inr rs"
    if "parsePorts s = Inr rs" "mset (Split s' (CHR '','')) = mset (Split s (CHR '',''))"
    for s s' rs
  proof -
    have "set (Split s' (CHR '','')) = set (Split s (CHR '',''))"
      using that(2) by (metis set_mset_mset)
    then show ?thesis using that(1) by (simp add: parsePorts_Inr_iff)
  qed
  have joined: "parsePorts (Join ts' (CHR '','')) = Inr qs"
    if h: "ts \<noteq> [] \<and> (\<forall>t \<in> set ts. CHR '','' \<notin> set t) \<and> mset ts' = mset ts
            \<and> parsePorts (Join ts (CHR '','')) = Inr qs"
  proof -
    have "set ts' = set ts" using h by (metis set_mset_mset)
    moreover have "ts' \<noteq> []" using h by auto
    ultimately have "Split (Join ts' (CHR '','')) (CHR '','') = ts'"
      using h by (intro Split_Join) auto
    moreover have "Split (Join ts (CHR '','')) (CHR '','') = ts"
      using h by (intro Split_Join) auto
    ultimately show ?thesis using same[of "Join ts (CHR '','')" qs "Join ts' (CHR '','')"] h by simp
  qed
  have members: "set ps = {n. \<exists>part \<in> set (Split spec (CHR '','')). names part n}"
    by (rule parsePorts_set[OF assms(1)])
  have once: "\<forall>n. count_list ps n
              = (if \<exists>part \<in> set (Split spec (CHR '','')). names part n then 1 else 0)"
    using parsePorts_count[OF assms(1)] by blast
  have overlap: "m \<in> set ps \<and> count_list ps m = 1"
    if h: "lit \<in> set (Split spec (CHR '','')) \<and> \<not> Contains (TrimSpace lit) (CHR ''-'')
            \<and> Atoi (TrimSpace lit) = Some m
            \<and> rng \<in> set (Split spec (CHR '','')) \<and> Contains (TrimSpace rng) (CHR ''-'')
            \<and> names rng m"
  proof -
    have "\<exists>part \<in> set (Split spec (CHR '','')). names part m" using h by blast
    then show ?thesis using members once by simp
  qed
  have "parsePorts spec' = Inr ps" by (rule same[OF assms])
  moreover have "sorted ps" "distinct ps"
    using parsePorts_sorted_distinct[OF assms(1)] by simp_all
  ultimately show ?thesis
    using joined overlap members once eval_443_80 eval_80_443 eval_20_22_21
    by (intro conjI impI) blast+
qed

theorem parsePorts_order_independent_witness:
  "parsePorts ''8080,8079-8081'' = Inr [8079, 8080, 8081]
   \<and> parsePorts ''8079-8081,8080'' = Inr [8079, 8080, 8081]
   \<and> parsePorts (Join [''8079-8081'', ''8080''] (CHR '','')) = Inr [8079, 8080, 8081]
   \<and> 8080 \<in> set [8079, 8080, 8081 :: int]
   \<and> count_list [8079, 8080, 8081 :: int] 8080 = 1"
proof -
  have a: "parsePorts ''8080,8079-8081'' = Inr [8079, 8080, 8081]" by (rule eval_overlap)
  have b: "mset (Split ''8079-8081,8080'' (CHR '','')) = mset (Split ''8080,8079-8081'' (CHR '',''))"
    by (simp add: add.commute)
  have j: "parsePorts (Join [''8080'', ''8079-8081''] (CHR '','')) = Inr [8079, 8080, 8081]"
    using a by simp
  have t: "[''8080'', ''8079-8081''] \<noteq> []"
    "\<forall>t \<in> set [''8080'', ''8079-8081'']. CHR '','' \<notin> set t"
    "mset [''8079-8081'', ''8080''] = mset [''8080'', ''8079-8081'']"
    by simp_all
  have l: "''8080'' \<in> set (Split ''8080,8079-8081'' (CHR '',''))"
    "''8079-8081'' \<in> set (Split ''8080,8079-8081'' (CHR '',''))"
    by simp_all
  have lit: "\<not> Contains (TrimSpace ''8080'') (CHR ''-'')" "Atoi (TrimSpace ''8080'') = Some 8080"
    by code_simp+
  have rng: "Contains (TrimSpace ''8079-8081'') (CHR ''-'')" "names ''8079-8081'' 8080"
    by code_simp+
  have 1: "parsePorts ''8079-8081,8080'' = Inr [8079, 8080, 8081]"
    using parsePorts_order_independent[OF a b] by blast
  have 2: "parsePorts (Join [''8079-8081'', ''8080''] (CHR '','')) = Inr [8079, 8080, 8081]"
    using parsePorts_order_independent[OF a b, of "[''8080'', ''8079-8081'']"
        "[''8079-8081'', ''8080'']" "[8079, 8080, 8081]"] j t
    by blast
  have 3: "8080 \<in> set [8079, 8080, 8081 :: int] \<and> count_list [8079, 8080, 8081 :: int] 8080 = 1"
    using parsePorts_order_independent[OF a b, where lit = "''8080''" and rng = "''8079-8081''"
        and m = 8080] l lit rng
    by blast
  show ?thesis using a 1 2 3 by blast
qed

lemma error_kinds_by_shape:
  assumes "Split spec (CHR '','') = pre @ part # post"
    and "addParts {} pre = Inr S"
    and "TrimSpace part = p" and "p \<noteq> []"
  shows
    "(Contains p (CHR ''-'') \<and> SplitN2 p (CHR ''-'') = [a, b]
        \<and> (Atoi (TrimSpace a) = None \<or> Atoi (TrimSpace b) = None)
      \<longrightarrow> errorKind (parsePorts spec) = Some KInvalidPort)
   \<and> (Contains p (CHR ''-'') \<and> SplitN2 p (CHR ''-'') = [a, b]
        \<and> Atoi (TrimSpace a) = Some x \<and> Atoi (TrimSpace b) = Some y
        \<and> (x < 1 \<or> y < 1 \<or> x > 65535 \<or> y > 65535 \<or> x > y)
      \<longrightarrow> parsePorts spec = Inl (InvalidRangeBounds p)
          \<and> errorKind (parsePorts spec) = Some KInvalidRange)
   \<and> (\<not> Contains p (CHR ''-'') \<and> Atoi p = None
      \<longrightarrow> parsePorts spec = Inl (InvalidPort p)
          \<and> errorKind (parsePorts spec) = Some KInvalidPort)
   \<and> (\<not> Contains p (CHR ''-'') \<and> Atoi p = Some n \<and> (n < 1 \<or> n > 65535)
      \<longrightarrow> parsePorts spec = Inl (PortOutOfRange n)
          \<and> errorKind (parsePorts spec) = Some KPortOutOfRange)
   \<and> (Contains p (CHR ''-'') \<and> SplitN2 p (CHR ''-'') = [a, b]
        \<and> Atoi (TrimSpace a) = Some x \<and> Atoi (TrimSpace b) = Some y
        \<and> 1 \<le> x \<and> x \<le> y \<and> y \<le> 65535
      \<longrightarrow> addPart S part = Inr (S \<union> {x..y})
          \<and> (\<forall>ps. parsePorts spec = Inr ps \<longrightarrow> {x..y} \<subseteq> set ps))"
proof (intro conjI impI)
  assume h: "Contains p (CHR ''-'') \<and> SplitN2 p (CHR ''-'') = [a, b]
        \<and> (Atoi (TrimSpace a) = None \<or> Atoi (TrimSpace b) = None)"
  then have "\<exists>s. addPart S part = Inl (InvalidPort s)"
    using addPart_range_token[OF assms(3,4), of a b S] by (auto split: option.splits)
  then obtain s where "addPart S part = Inl (InvalidPort s)" ..
  then have "parsePorts spec = Inl (InvalidPort s)"
    by (rule parsePorts_first_error[OF assms(1,2)])
  then show "errorKind (parsePorts spec) = Some KInvalidPort"
    by (simp add: errorKind_def)
next
  assume h: "Contains p (CHR ''-'') \<and> SplitN2 p (CHR ''-'') = [a, b]
        \<and> Atoi (TrimSpace a) = Some x \<and> Atoi (TrimSpace b) = Some y
        \<and> (x < 1 \<or> y < 1 \<or> x > 65535 \<or> y > 65535 \<or> x > y)"
  then have "addPart S part = Inl (InvalidRangeBounds p)"
    using addPart_range_token[OF assms(3,4), of a b S] by auto
  then show r: "parsePorts spec = Inl (InvalidRangeBounds p)"
    by (rule parsePorts_first_error[OF assms(1,2)])
  show "errorKind (parsePorts spec) = Some KInvalidRange"
    by (simp add: r errorKind_def)
next
  assume h: "\<not> Contains p (CHR ''-'') \<and> Atoi p = None"
  then have "addPart S part = Inl (InvalidPort p)"
    using addPart_single_token[OF assms(3,4), of S] by auto
  then show r: "parsePorts spec = Inl (InvalidPort p)"
    by (rule parsePorts_first_error[OF assms(1,2)])
  show "errorKind (parsePorts spec) = Some KInvalidPort"
    by (simp add: r errorKind_def)
next
  assume h: "\<not> Contains p (CHR ''-'') \<and> Atoi p = Some n \<and> (n < 1 \<or> n > 65535)"
  then have "addPart S part = Inl (PortOutOfRange n)"
    using addPart_single_token[OF assms(3,4), of S] by auto
  then show r: "parsePorts spec = Inl (PortOutOfRange n)"
    by (rule parsePorts_first_error[OF assms(1,2)])
  show "errorKind (parsePorts spec) = Some KPortOutOfRange"
    by (simp add: r errorKind_def)
next
  assume h: "Contains p (CHR ''-'') \<and> SplitN2 p (CHR ''-'') = [a, b]
        \<and> Atoi (TrimSpace a) = Some x \<and> Atoi (TrimSpace b) = Some y
        \<and> 1 \<le> x \<and> x \<le> y \<and> y \<le> 65535"
  then show r: "addPart S part = Inr (S \<union> {x..y})"
    using addPart_range_token[OF assms(3,4), of a b S] by auto
  show "\<forall>ps. parsePorts spec = Inr ps \<longrightarrow> {x..y} \<subseteq> set ps"
    using parsePorts_part_subset[OF assms(1,2) r] by blast
qed


text \<open>
  Claim C6, as the specification states it: a single integer token outside 1..65535
  fails with \<open>PortOutOfRange\<close>, and a range token with a side outside 1..65535 fails
  with \<open>InvalidRange\<close>. A digit string too long for Go's \<open>int\<close> is such a token, and
  \<open>strconv.Atoi\<close> fails on it with a range error, which \<open>parsePorts\<close> reports as
  "invalid port": \<open>"99999999999999999999"\<close> and \<open>"1-99999999999999999999"\<close> both fail
  with \<open>InvalidPort\<close>.
\<close>

theorem parsePorts_error_kinds_counterexample:
  "list_all isDigit ''99999999999999999999''
   \<and> digitsVal 0 ''99999999999999999999'' = 99999999999999999999
   \<and> \<not> Contains ''99999999999999999999'' (CHR ''-'')
   \<and> parsePorts ''99999999999999999999'' = Inl (InvalidPort ''99999999999999999999'')
   \<and> errorKind (parsePorts ''99999999999999999999'') = Some KInvalidPort
   \<and> errorKind (parsePorts ''99999999999999999999'') \<noteq> Some KPortOutOfRange
   \<and> SplitN2 ''1-99999999999999999999'' (CHR ''-'') = [''1'', ''99999999999999999999'']
   \<and> parsePorts ''1-99999999999999999999'' = Inl (InvalidPort ''99999999999999999999'')
   \<and> errorKind (parsePorts ''1-99999999999999999999'') = Some KInvalidPort
   \<and> errorKind (parsePorts ''1-99999999999999999999'') \<noteq> Some KInvalidRange"
proof -
  have c: "\<not> Contains ''99999999999999999999'' (CHR ''-'')" by code_simp
  have n: "SplitN2 ''1-99999999999999999999'' (CHR ''-'') = [''1'', ''99999999999999999999'']"
    by code_simp
  show ?thesis
    using eval_long_digits eval_long eval_long_range c n by (simp add: errorKind_def)
qed

text \<open>
  Claim C6, amended. The error of \<open>parsePorts\<close> is decided by the shape of the first
  token that fails. Let the tokens before \<open>part\<close> be valid, and let \<open>p\<close>, the trimmed
  \<open>part\<close>, be non-empty. A range token is one that contains \<open>-\<close>; its sides \<open>a\<close> and \<open>b\<close>
  are what stands before and after the first \<open>-\<close> (so \<open>"-5"\<close> is a range token with an
  empty left side). A side, or a single token, parses when \<open>strconv.Atoi\<close> succeeds on
  it (on the trimmed side): it is an optional sign and decimal digits, and its value
  fits Go's \<open>int\<close>.
  \<^item> A range token with a side that does not parse fails with \<open>InvalidPort\<close>; a side of
    digits too long for an \<open>int\<close> is such a side.
  \<^item> A range token whose sides parse to \<open>x\<close> and \<open>y\<close>, one of them outside 1..65535 or
    \<open>x > y\<close>, fails with \<open>InvalidRange\<close> (the message "invalid range bounds").
  \<^item> A single token that does not parse fails with \<open>InvalidPort\<close>; a token of digits too
    long for an \<open>int\<close> is such a token.
  \<^item> A single token that parses to \<open>n\<close> outside 1..65535 fails with \<open>PortOutOfRange\<close>.
  \<^item> A valid range token adds exactly the integers of \<open>[x, y]\<close> to the set, and all of them
    are in the result when the whole specification is valid.
\<close>

theorem parsePorts_error_kinds:
  assumes "Split spec (CHR '','') = pre @ part # post"
    and "addParts {} pre = Inr S"
    and "TrimSpace part = p" and "p \<noteq> []"
  shows
    "(Contains p (CHR ''-'') \<and> SplitN2 p (CHR ''-'') = [a, b]
        \<and> (Atoi (TrimSpace a) = None \<or> Atoi (TrimSpace b) = None)
      \<longrightarrow> errorKind (parsePorts spec) = Some KInvalidPort)
   \<and> (Contains p (CHR ''-'') \<and> SplitN2 p (CHR ''-'') = [a, b]
        \<and> Atoi (TrimSpace a) = Some x \<and> Atoi (TrimSpace b) = Some y
        \<and> (x < 1 \<or> y < 1 \<or> x > 65535 \<or> y > 65535 \<or> x > y)
      \<longrightarrow> parsePorts spec = Inl (InvalidRangeBounds p)
          \<and> errorKind (parsePorts spec) = Some KInvalidRange)
   \<and> (\<not> Contains p (CHR ''-'') \<and> Atoi p = None
      \<longrightarrow> parsePorts spec = Inl (InvalidPort p)
          \<and> errorKind (parsePorts spec) = Some KInvalidPort)
   \<and> (\<not> Contains p (CHR ''-'') \<and> Atoi p = Some n \<and> (n < 1 \<or> n > 65535)
      \<longrightarrow> parsePorts spec = Inl (PortOutOfRange n)
          \<and> errorKind (parsePorts spec) = Some KPortOutOfRange)
   \<and> (Contains p (CHR ''-'') \<and> SplitN2 p (CHR ''-'') = [a, b]
        \<and> Atoi (TrimSpace a) = Some x \<and> Atoi (TrimSpace b) = Some y
        \<and> 1 \<le> x \<and> x \<le> y \<and> y \<le> 65535
      \<longrightarrow> addPart S part = Inr (S \<union> {x..y})
          \<and> (\<forall>ps. parsePorts spec = Inr ps \<longrightarrow> {x..y} \<subseteq> set ps))
   \<and> (\<not> Contains p (CHR ''-'') \<and> list_all isDigit p \<and> 2 ^ 63 - 1 < digitsVal 0 p
      \<longrightarrow> parsePorts spec = Inl (InvalidPort p)
          \<and> errorKind (parsePorts spec) = Some KInvalidPort)
   \<and> (Contains p (CHR ''-'') \<and> SplitN2 p (CHR ''-'') = [a, b]
        \<and> (list_all isDigit (TrimSpace a) \<and> 2 ^ 63 - 1 < digitsVal 0 (TrimSpace a)
            \<or> list_all isDigit (TrimSpace b) \<and> 2 ^ 63 - 1 < digitsVal 0 (TrimSpace b))
      \<longrightarrow> errorKind (parsePorts spec) = Some KInvalidPort)"
proof -
  note shape = error_kinds_by_shape[OF assms, of a b x y n]
  have long_single: "parsePorts spec = Inl (InvalidPort p)
          \<and> errorKind (parsePorts spec) = Some KInvalidPort"
    if "\<not> Contains p (CHR ''-'') \<and> list_all isDigit p \<and> 2 ^ 63 - 1 < digitsVal 0 p"
  proof -
    have "Atoi p = None" using that Atoi_overflow[of p] by auto
    then show ?thesis using shape that by blast
  qed
  have long_side: "errorKind (parsePorts spec) = Some KInvalidPort"
    if "Contains p (CHR ''-'') \<and> SplitN2 p (CHR ''-'') = [a, b]
        \<and> (list_all isDigit (TrimSpace a) \<and> 2 ^ 63 - 1 < digitsVal 0 (TrimSpace a)
            \<or> list_all isDigit (TrimSpace b) \<and> 2 ^ 63 - 1 < digitsVal 0 (TrimSpace b))"
  proof -
    have "Atoi (TrimSpace a) = None \<or> Atoi (TrimSpace b) = None"
      using that Atoi_overflow[of "TrimSpace a"] Atoi_overflow[of "TrimSpace b"] by auto
    then show ?thesis using shape that by blast
  qed
  show ?thesis using shape long_single long_side by (intro conjI impI) blast+
qed

theorem parsePorts_error_kinds_witness:
  "errorKind (parsePorts ''22,x-5'') = Some KInvalidPort
   \<and> parsePorts ''22,5-3'' = Inl (InvalidRangeBounds ''5-3'')
   \<and> parsePorts ''22, abc'' = Inl (InvalidPort ''abc'')
   \<and> parsePorts ''22,65536'' = Inl (PortOutOfRange 65536)
   \<and> addPart {22} ''80-82'' = Inr ({22} \<union> {80..82})
   \<and> parsePorts ''22,99999999999999999999'' = Inl (InvalidPort ''99999999999999999999'')"
proof -
  have pre: "addParts {} [''22''] = Inr {22}" by code_simp
  have 1: "errorKind (parsePorts ''22,x-5'') = Some KInvalidPort"
  proof -
    have s: "Split ''22,x-5'' (CHR '','') = [''22''] @ ''x-5'' # []" by code_simp
    have t: "TrimSpace ''x-5'' = ''x-5''" by code_simp
    have c: "Contains ''x-5'' (CHR ''-'')" by code_simp
    have n: "SplitN2 ''x-5'' (CHR ''-'') = [''x'', ''5'']" by code_simp
    have a: "Atoi (TrimSpace ''x'') = None" by code_simp
    show ?thesis
      using parsePorts_error_kinds[OF s pre t, of "''x''" "''5''"] c n a by simp
  qed
  have 2: "parsePorts ''22,5-3'' = Inl (InvalidRangeBounds ''5-3'')"
  proof -
    have s: "Split ''22,5-3'' (CHR '','') = [''22''] @ ''5-3'' # []" by code_simp
    have t: "TrimSpace ''5-3'' = ''5-3''" by code_simp
    have c: "Contains ''5-3'' (CHR ''-'')" by code_simp
    have n: "SplitN2 ''5-3'' (CHR ''-'') = [''5'', ''3'']" by code_simp
    have a: "Atoi (TrimSpace ''5'') = Some 5" by code_simp
    have b: "Atoi (TrimSpace ''3'') = Some 3" by code_simp
    show ?thesis
      using parsePorts_error_kinds[OF s pre t, of "''5''" "''3''" 5 3] c n a b by simp
  qed
  have 3: "parsePorts ''22, abc'' = Inl (InvalidPort ''abc'')"
  proof -
    have s: "Split ''22, abc'' (CHR '','') = [''22''] @ '' abc'' # []" by code_simp
    have t: "TrimSpace '' abc'' = ''abc''" by code_simp
    have c: "\<not> Contains ''abc'' (CHR ''-'')" by code_simp
    have a: "Atoi ''abc'' = None" by code_simp
    show ?thesis
      using parsePorts_error_kinds[OF s pre t] c a by simp
  qed
  have 4: "parsePorts ''22,65536'' = Inl (PortOutOfRange 65536)"
  proof -
    have s: "Split ''22,65536'' (CHR '','') = [''22''] @ ''65536'' # []" by code_simp
    have t: "TrimSpace ''65536'' = ''65536''" by code_simp
    have c: "\<not> Contains ''65536'' (CHR ''-'')" by code_simp
    have a: "Atoi ''65536'' = Some 65536" by code_simp
    show ?thesis
      using parsePorts_error_kinds[OF s pre t, where n = 65536] c a by simp
  qed
  have 5: "addPart {22} ''80-82'' = Inr ({22} \<union> {80..82})"
  proof -
    have s: "Split ''22,80-82'' (CHR '','') = [''22''] @ ''80-82'' # []" by code_simp
    have t: "TrimSpace ''80-82'' = ''80-82''" by code_simp
    have c: "Contains ''80-82'' (CHR ''-'')" by code_simp
    have n: "SplitN2 ''80-82'' (CHR ''-'') = [''80'', ''82'']" by code_simp
    have a: "Atoi (TrimSpace ''80'') = Some 80" by code_simp
    have b: "Atoi (TrimSpace ''82'') = Some 82" by code_simp
    show ?thesis
      using parsePorts_error_kinds[OF s pre t, of "''80''" "''82''" 80 82] c n a b by simp
  qed
  have 6: "parsePorts ''22,99999999999999999999'' = Inl (InvalidPort ''99999999999999999999'')"
  proof -
    have s: "Split ''22,99999999999999999999'' (CHR '','') = [''22''] @ ''99999999999999999999'' # []"
      by code_simp
    have t: "TrimSpace ''99999999999999999999'' = ''99999999999999999999''" by code_simp
    have c: "\<not> Contains ''99999999999999999999'' (CHR ''-'')" by code_simp
    have d: "list_all isDigit ''99999999999999999999''"
      "(2 ^ 63 - 1 :: int) < digitsVal 0 ''99999999999999999999''"
      using eval_long_digits by simp_all
    have ne: "''99999999999999999999'' \<noteq> []" by simp
    show ?thesis
      using parsePorts_error_kinds[OF s pre t ne] c d by blast
  qed
  show ?thesis using 1 2 3 4 5 6 by simp
qed

text \<open>
  Claim C7. At the boundaries: \<open>"1-65535"\<close> resolves to the ascending sequence 1..65535,
  of 65535 entries; \<open>"0"\<close> and \<open>"65536"\<close> fail with \<open>PortOutOfRange\<close>; \<open>"5-3"\<close> fails with
  \<open>InvalidRange\<close>.
\<close>

theorem parsePorts_boundaries:
  "parsePorts ''1-65535'' = Inr [1..65535] \<and> length [1..65535] = 65535
   \<and> parsePorts ''0'' = Inl (PortOutOfRange 0)
   \<and> parsePorts ''65536'' = Inl (PortOutOfRange 65536)
   \<and> parsePorts ''5-3'' = Inl (InvalidRangeBounds ''5-3'')
   \<and> errorKind (parsePorts ''0'') = Some KPortOutOfRange
   \<and> errorKind (parsePorts ''65536'') = Some KPortOutOfRange
   \<and> errorKind (parsePorts ''5-3'') = Some KInvalidRange"
  by (simp add: eval_full_range eval_0 eval_65536 eval_5_3 errorKind_def)

theorem parsePorts_boundaries_witness:
  "\<exists>ps. parsePorts ''1-65535'' = Inr ps \<and> length ps = 65535"
  using parsePorts_boundaries by blast



text \<open>
  Claim C9. A specification that is empty or consists of white space and commas only
  resolves to the empty sequence, without error. With a host and a worker count that
  pass their checks, \<open>main\<close> then exits with code 0 (not 2) after the notice
  "no ports to scan", and the engine is not started.
\<close>

theorem empty_spec_short_circuit:
  assumes "blankSpec (portsFlag f)" and "hostFlag f \<noteq> []"
    and "0 < workersFlag f" and "workersFlag f \<le> 10000"
  shows "parsePorts (portsFlag f) = Inr [] \<and> main f = Exit 0 NoPortsToScan
       \<and> (\<forall>e. main f \<noteq> Scan e)"
  using assms parsePorts_blank[OF assms(1)] by (simp add: main_def)

theorem empty_spec_short_circuit_witness:
  "parsePorts '' , ,'' = Inr []
   \<and> main \<lparr>hostFlag = ''localhost'', portsFlag = '' , ,'', workersFlag = 100, timeoutFlag = 500\<rparr>
       = Exit 0 NoPortsToScan"
proof -
  have sp: "'' '' \<in> set spaceSeqs" by (simp add: spaceSeqs_def)
  have "blankSpec ('' '' @ CHR '','' # '' '' @ CHR '','' # [])"
    by (intro blank_space blank_comma blank_Nil sp)
  then have b: "blankSpec (portsFlag \<lparr>hostFlag = ''localhost'', portsFlag = '' , ,'', workersFlag = 100, timeoutFlag = 500\<rparr>)"
    by simp
  show ?thesis using empty_spec_short_circuit[OF b] by simp
qed

section \<open>The engine: lemmas\<close>

lemma sum_list_update:
  "i < length ws \<Longrightarrow>
     sum_list (map f (ws[i := x])) + f (ws ! i) = sum_list (map f ws) + (f x :: nat)"
proof (induction ws arbitrary: i)
  case Nil then show ?case by simp
next
  case (Cons a ws)
  then show ?case by (cases i) auto
qed

lemma mset_concat_update:
  "i < length ws \<Longrightarrow>
     mset (concat (map f (ws[i := x]))) + mset (f (ws ! i)) = mset (concat (map f ws)) + mset (f x)"
proof (induction ws arbitrary: i)
  case Nil then show ?case by simp
next
  case (Cons a ws)
  show ?case
  proof (cases i)
    case 0 then show ?thesis by simp
  next
    case (Suc j)
    then have "j < length ws" using Cons.prems by simp
    from Cons.IH[OF this] show ?thesis using Suc by (simp add: ac_simps)
  qed
qed

lemma filter_length_update:
  "i < length ws \<Longrightarrow>
     length (filter P (ws[i := x])) + (if P (ws ! i) then 1 else 0)
       = length (filter P ws) + (if P x then 1 else 0)"
proof (induction ws arbitrary: i)
  case Nil then show ?case by simp
next
  case (Cons a ws)
  show ?case
  proof (cases i)
    case 0 then show ?thesis by simp
  next
    case (Suc j)
    then have "j < length ws" using Cons.prems by simp
    from Cons.IH[OF this] show ?thesis using Suc by simp
  qed
qed

lemma set_update_mem: "y \<in> set (ws[i := x]) \<Longrightarrow> y = x \<or> y \<in> set ws"
  using set_update_subset_insert[of ws i x] by auto

lemma step_decreases: "step accept a e = Some e' \<Longrightarrow> steps_left e' < steps_left e"
proof (cases a)
  case Distribute
  assume "step accept a e = Some e'"
  then show ?thesis using Distribute
    by (auto simp: steps_left_def split: list.splits if_splits)
next
  case CloseJobs
  assume "step accept a e = Some e'"
  then show ?thesis using CloseJobs
    by (auto simp: steps_left_def split: if_splits)
next
  case (Receive i)
  assume s: "step accept a e = Some e'"
  then have i: "i < length (workers e)" "workers e ! i = Receiving"
    using Receive by (auto split: if_splits)
  from s Receive i obtain p rest where b: "buf (portsCh e) = p # rest"
    and e': "e' = e\<lparr>portsCh := (portsCh e)\<lparr>buf := rest\<rparr>, workers := (workers e)[i := Dialing p]\<rparr>"
    by (auto split: list.splits)
  show ?thesis
    using sum_list_update[OF i(1), of weight "Dialing p"] i(2) b
    by (simp add: steps_left_def e')
next
  case (Dial i)
  assume s: "step accept a e = Some e'"
  then have i: "i < length (workers e)" using Dial by (auto split: if_splits)
  from s Dial i obtain p where w: "workers e ! i = Dialing p"
    and e': "e' = e\<lparr>dialed := dialed e @ [p],
                    workers := (workers e)[i := (if accept p then Sending p else Receiving)]\<rparr>"
    by (auto split: worker.splits)
  show ?thesis
    using sum_list_update[OF i, of weight "Sending p"] sum_list_update[OF i, of weight Receiving] w
    by (simp add: steps_left_def e')
next
  case (Report i)
  assume s: "step accept a e = Some e'"
  then have i: "i < length (workers e)" using Report by (auto split: if_splits)
  from s Report i obtain p where w: "workers e ! i = Sending p"
    and e': "e' = e\<lparr>open_ports := open_ports e @ [p], workers := (workers e)[i := Receiving]\<rparr>"
    by (auto split: worker.splits if_splits)
  show ?thesis
    using sum_list_update[OF i, of weight Receiving] w
    by (simp add: steps_left_def e')
next
  case (Leave i)
  assume s: "step accept a e = Some e'"
  then have i: "i < length (workers e)" "workers e ! i = Receiving"
    and e': "e' = e\<lparr>workers := (workers e)[i := Returned], wg := wg e - 1\<rparr>"
    using Leave by (auto split: if_splits)
  show ?thesis
    using sum_list_update[OF i(1), of weight Returned] i(2)
    by (simp add: steps_left_def e')
next
  case CloseResults
  assume "step accept a e = Some e'"
  then show ?thesis using CloseResults
    by (auto simp: steps_left_def split: if_splits)
next
  case Finish
  assume "step accept a e = Some e'"
  then show ?thesis using Finish
    by (auto simp: steps_left_def split: if_splits)
qed

lemma exec_length:
  "exec accept sched e = Some e' \<Longrightarrow> length sched + steps_left e' \<le> steps_left e"
proof (induction sched arbitrary: e)
  case Nil
  then show ?case by simp
next
  case (Cons a sched)
  then obtain e1 where s: "step accept a e = Some e1" and r: "exec accept sched e1 = Some e'"
    by (auto split: option.splits)
  from Cons.IH[OF r] step_decreases[OF s] show ?case by simp
qed

lemma steps_left_start:
  "0 \<le> w \<Longrightarrow> steps_left (start w ps) = 4 * length ps + nat (min w (int (length ps))) + 3"
  by (auto simp: steps_left_def start_def make_chan_def Let_def min_def sum_list_replicate)

lemma step_cases [consumes 1, case_names Distribute CloseJobs Receive Dial Report Leave CloseResults Finish]:
  assumes "step accept a e = Some e'"
  obtains
    p rest where "a = Distribute" "pending e = p # rest" "\<not> closed (portsCh e)"
      "length (buf (portsCh e)) < cap (portsCh e)"
      "e' = e\<lparr>portsCh := (portsCh e)\<lparr>buf := buf (portsCh e) @ [p]\<rparr>, pending := rest\<rparr>"
  | "a = CloseJobs" "pending e = []" "\<not> closed (portsCh e)"
      "e' = e\<lparr>portsCh := (portsCh e)\<lparr>closed := True\<rparr>\<rparr>"
  | i p rest where "a = Receive i" "i < length (workers e)" "workers e ! i = Receiving"
      "buf (portsCh e) = p # rest"
      "e' = e\<lparr>portsCh := (portsCh e)\<lparr>buf := rest\<rparr>, workers := (workers e)[i := Dialing p]\<rparr>"
  | i p where "a = Dial i" "i < length (workers e)" "workers e ! i = Dialing p"
      "e' = e\<lparr>dialed := dialed e @ [p],
               workers := (workers e)[i := (if accept p then Sending p else Receiving)]\<rparr>"
  | i p where "a = Report i" "i < length (workers e)" "workers e ! i = Sending p"
      "result e = None" "\<not> closed (resultsCh e)"
      "e' = e\<lparr>open_ports := open_ports e @ [p], workers := (workers e)[i := Receiving]\<rparr>"
  | i where "a = Leave i" "i < length (workers e)" "workers e ! i = Receiving"
      "buf (portsCh e) = []" "closed (portsCh e)"
      "e' = e\<lparr>workers := (workers e)[i := Returned], wg := wg e - 1\<rparr>"
  | "a = CloseResults" "wg e = 0" "\<not> closed (resultsCh e)"
      "e' = e\<lparr>resultsCh := (resultsCh e)\<lparr>closed := True\<rparr>\<rparr>"
  | "a = Finish" "result e = None" "closed (resultsCh e)" "buf (resultsCh e) = []"
      "e' = e\<lparr>result := Some (sort (open_ports e))\<rparr>"
proof (cases a)
  case Distribute
  with assms that(1) show ?thesis by (auto split: list.splits if_splits)
next
  case CloseJobs
  with assms that(2) show ?thesis by (auto split: if_splits)
next
  case (Receive i)
  with assms that(3) show ?thesis by (auto split: list.splits if_splits)
next
  case (Dial i)
  with assms that(4) show ?thesis by (auto split: worker.splits if_splits)
next
  case (Report i)
  with assms that(5) show ?thesis by (auto split: worker.splits if_splits)
next
  case (Leave i)
  with assms that(6) show ?thesis by (auto split: if_splits)
next
  case CloseResults
  with assms that(7) show ?thesis by (auto split: if_splits)
next
  case Finish
  with assms that(8) show ?thesis by (auto split: if_splits)
qed

lemma shape_inv_step:
  assumes "step accept a e = Some e'" "shape_inv w ps e"
  shows "shape_inv w ps e'"
  using assms by (cases rule: step_cases) (auto simp: shape_inv_def)

lemma held_grows:
  assumes "i < length ws" "f (ws ! i) = []"
  shows "mset (concat (map f (ws[i := x]))) = mset (concat (map f ws)) + mset (f x)"
  using mset_concat_update[OF assms(1), of f x] assms(2) by simp

lemma held_shrinks:
  assumes "i < length ws" "f x = []"
  shows "mset (concat (map f ws)) = mset (concat (map f (ws[i := x]))) + mset (f (ws ! i))"
  using mset_concat_update[OF assms(1), of f x] assms(2) by simp

lemma jobs_inv_step:
  assumes "step accept a e = Some e'" "jobs_inv ps e"
  shows "jobs_inv ps e'"
  using assms
proof (cases rule: step_cases)
  case (Receive i p rest)
  have "mset (concat (map holds_dial ((workers e)[i := Dialing p])))
      = mset (concat (map holds_dial (workers e))) + {#p#}"
    using held_grows[OF Receive(2), of holds_dial "Dialing p"] Receive(3) by simp
  then show ?thesis using assms(2) Receive by (simp add: jobs_inv_def)
next
  case (Dial i p)
  let ?x = "if accept p then Sending p else Receiving"
  have "mset (concat (map holds_dial (workers e)))
      = mset (concat (map holds_dial ((workers e)[i := ?x]))) + {#p#}"
    using held_shrinks[OF Dial(2), of holds_dial ?x] Dial(3) by simp
  then show ?thesis using assms(2) Dial by (simp add: jobs_inv_def)
next
  case (Report i p)
  have "mset (concat (map holds_dial ((workers e)[i := Receiving])))
      = mset (concat (map holds_dial (workers e)))"
    using held_grows[OF Report(2), of holds_dial Receiving] Report(3) by simp
  then show ?thesis using assms(2) Report by (simp add: jobs_inv_def)
next
  case (Leave i)
  have "mset (concat (map holds_dial ((workers e)[i := Returned])))
      = mset (concat (map holds_dial (workers e)))"
    using held_grows[OF Leave(2), of holds_dial Returned] Leave(3) by simp
  then show ?thesis using assms(2) Leave by (simp add: jobs_inv_def)
qed (auto simp: jobs_inv_def)

lemma results_inv_step:
  assumes "step accept a e = Some e'" "results_inv accept e"
  shows "results_inv accept e'"
  using assms
proof (cases rule: step_cases)
  case (Receive i p rest)
  have "mset (concat (map holds_send ((workers e)[i := Dialing p])))
      = mset (concat (map holds_send (workers e)))"
    using held_grows[OF Receive(2), of holds_send "Dialing p"] Receive(3) by simp
  then show ?thesis using assms(2) Receive by (simp add: results_inv_def)
next
  case (Dial i p)
  let ?x = "if accept p then Sending p else Receiving"
  have "mset (concat (map holds_send ((workers e)[i := ?x])))
      = mset (concat (map holds_send (workers e))) + mset (holds_send ?x)"
    using held_grows[OF Dial(2), of holds_send ?x] Dial(3) by simp
  then show ?thesis using assms(2) Dial by (simp add: results_inv_def)
next
  case (Report i p)
  have "mset (concat (map holds_send (workers e)))
      = mset (concat (map holds_send ((workers e)[i := Receiving]))) + {#p#}"
    using held_shrinks[OF Report(2), of holds_send Receiving] Report(3) by simp
  then show ?thesis using assms(2) Report by (simp add: results_inv_def)
next
  case (Leave i)
  have "mset (concat (map holds_send ((workers e)[i := Returned])))
      = mset (concat (map holds_send (workers e)))"
    using held_grows[OF Leave(2), of holds_send Returned] Leave(3) by simp
  then show ?thesis using assms(2) Leave by (simp add: results_inv_def)
qed (auto simp: results_inv_def)

lemma order_inv_step:
  assumes "step accept a e = Some e'" "order_inv e"
  shows "order_inv e'"
  using assms
proof (cases rule: step_cases)
  case (Receive i p rest)
  have "Returned \<notin> set (workers e)" using assms(2) Receive(4) by (auto simp: order_inv_def)
  then have "Returned \<notin> set ((workers e)[i := Dialing p])"
    using set_update_mem[of Returned "workers e" i "Dialing p"] by auto
  then show ?thesis
    using assms(2) Receive filter_length_update[OF Receive(2), of "\<lambda>x. x \<noteq> Returned" "Dialing p"]
    by (auto simp: order_inv_def)
next
  case (Dial i p)
  let ?x = "if accept p then Sending p else Receiving"
  have "Returned \<in> set ((workers e)[i := ?x]) \<Longrightarrow> Returned \<in> set (workers e)"
    using set_update_mem[of Returned "workers e" i ?x] by (auto split: if_splits)
  then show ?thesis
    using assms(2) Dial filter_length_update[OF Dial(2), of "\<lambda>x. x \<noteq> Returned" ?x]
    by (auto simp: order_inv_def)
next
  case (Report i p)
  have "Returned \<in> set ((workers e)[i := Receiving]) \<Longrightarrow> Returned \<in> set (workers e)"
    using set_update_mem[of Returned "workers e" i Receiving] by auto
  then show ?thesis
    using assms(2) Report filter_length_update[OF Report(2), of "\<lambda>x. x \<noteq> Returned" Receiving]
    by (auto simp: order_inv_def)
next
  case (Leave i)
  have "length (filter (\<lambda>x. x \<noteq> Returned) ((workers e)[i := Returned])) + 1
      = length (filter (\<lambda>x. x \<noteq> Returned) (workers e))"
    using filter_length_update[OF Leave(2), of "\<lambda>x. x \<noteq> Returned" Returned] Leave(3) by simp
  then show ?thesis
    using assms(2) Leave by (auto simp: order_inv_def)
qed (auto simp: order_inv_def)

lemma engine_inv_start: "0 \<le> w \<Longrightarrow> engine_inv accept w ps (start w ps)"
  by (auto simp: engine_inv_def shape_inv_def order_inv_def jobs_inv_def results_inv_def
      start_def make_chan_def Let_def min_def)

lemma engine_inv_step:
  "step accept a e = Some e' \<Longrightarrow> engine_inv accept w ps e \<Longrightarrow> engine_inv accept w ps e'"
  unfolding engine_inv_def
  using shape_inv_step order_inv_step jobs_inv_step results_inv_step by blast

lemma engine_inv_exec:
  "exec accept sched e = Some e' \<Longrightarrow> engine_inv accept w ps e \<Longrightarrow> engine_inv accept w ps e'"
proof (induction sched arbitrary: e)
  case Nil
  then show ?case by simp
next
  case (Cons a sched)
  then obtain e1 where s: "step accept a e = Some e1" and r: "exec accept sched e1 = Some e'"
    by (auto split: option.splits)
  show ?case by (rule Cons.IH[OF r engine_inv_step[OF s Cons.prems(2)]])
qed

lemma exec_append:
  "exec accept (xs @ ys) e = (case exec accept xs e of None \<Rightarrow> None | Some e1 \<Rightarrow> exec accept ys e1)"
  by (induction xs arbitrary: e) (auto split: option.splits)

text \<open>No deadlock: while \<open>main\<close> has not left its loop, some goroutine can take a step.\<close>

lemma can_step:
  assumes inv: "shape_inv w ps e" "order_inv e" and w: "1 \<le> w" and r: "result e = None"
  shows "\<exists>a e'. step accept a e = Some e'"
proof (cases "closed (resultsCh e)")
  case True
  then have "step accept Finish e \<noteq> None" using r inv(1) by (simp add: shape_inv_def)
  then show ?thesis by blast
next
  case open_results: False
  show ?thesis
  proof (cases "wg e = 0")
    case True
    then have "step accept CloseResults e \<noteq> None" using open_results by simp
    then show ?thesis by blast
  next
    case False
    then have "filter (\<lambda>x. x \<noteq> Returned) (workers e) \<noteq> []"
      using inv(2) by (auto simp: order_inv_def)
    then obtain x where x: "x \<in> set (workers e)" "x \<noteq> Returned"
      by (metis (mono_tags, lifting) filter_False)
    then obtain i where i: "i < length (workers e)" "workers e ! i = x"
      by (auto simp: in_set_conv_nth)
    show ?thesis
    proof (cases x)
      case Receiving
      show ?thesis
      proof (cases "buf (portsCh e)")
        case (Cons p rest)
        then have "step accept (Receive i) e \<noteq> None" using i Receiving by simp
        then show ?thesis by blast
      next
        case Nil
        show ?thesis
        proof (cases "closed (portsCh e)")
          case True
          then have "step accept (Leave i) e \<noteq> None" using i Receiving Nil by simp
          then show ?thesis by blast
        next
          case open_jobs: False
          show ?thesis
          proof (cases "pending e")
            case Nil
            then have "step accept CloseJobs e \<noteq> None" using open_jobs by simp
            then show ?thesis by blast
          next
            case (Cons p rest)
            have "0 < cap (portsCh e)" using inv(1) w by (simp add: shape_inv_def)
            then have "step accept Distribute e \<noteq> None"
              using Cons open_jobs \<open>buf (portsCh e) = []\<close> by simp
            then show ?thesis by blast
          qed
        qed
      qed
    next
      case (Dialing p)
      then have "step accept (Dial i) e \<noteq> None" using i by simp
      then show ?thesis by blast
    next
      case (Sending p)
      then have "step accept (Report i) e \<noteq> None" using i r open_results by simp
      then show ?thesis by blast
    next
      case Returned
      then show ?thesis using x by simp
    qed
  qed
qed

text \<open>Every run can be continued to the end, whatever was scheduled so far.\<close>

lemma can_finish:
  assumes "engine_inv accept w ps e" "1 \<le> w"
  shows "\<exists>sched e'. exec accept sched e = Some e' \<and> result e' \<noteq> None"
  using assms(1)
proof (induction "steps_left e" arbitrary: e rule: less_induct)
  case less
  show ?case
  proof (cases "result e")
    case (Some out)
    then have "exec accept [] e = Some e \<and> result e \<noteq> None" by simp
    then show ?thesis by blast
  next
    case None
    have "shape_inv w ps e" "order_inv e" using less.prems by (auto simp: engine_inv_def)
    from can_step[OF this assms(2) None] obtain a e1 where s: "step accept a e = Some e1"
      by blast
    have "steps_left e1 < steps_left e" by (rule step_decreases[OF s])
    moreover have "engine_inv accept w ps e1" by (rule engine_inv_step[OF s less.prems])
    ultimately obtain sched e' where "exec accept sched e1 = Some e'" "result e' \<noteq> None"
      using less.hyps by blast
    then have "exec accept (a # sched) e = Some e' \<and> result e' \<noteq> None" using s by simp
    then show ?thesis by blast
  qed
qed

text \<open>What a finished engine looks like.\<close>

lemma finished_state:
  assumes inv: "engine_inv accept w ps e" and w: "1 \<le> w" and ps: "ps \<noteq> []"
    and fin: "result e = Some out"
  shows "closed (resultsCh e)" "\<forall>x \<in> set (workers e). x = Returned" "closed (portsCh e)"
    "pending e = []" "buf (portsCh e) = []"
    "mset (dialed e) = mset ps" "out = sort (filter accept ps)"
proof -
  have sh: "shape_inv w ps e" and ord: "order_inv e" and jobs: "jobs_inv ps e"
    and res: "results_inv accept e"
    using inv by (auto simp: engine_inv_def)
  show c: "closed (resultsCh e)" using ord fin by (simp add: order_inv_def)
  then have "wg e = 0" using ord unfolding order_inv_def by blast
  moreover have "wg e = length (filter (\<lambda>x. x \<noteq> Returned) (workers e))"
    using ord unfolding order_inv_def by blast
  ultimately have "filter (\<lambda>x. x \<noteq> Returned) (workers e) = []"
    by (metis length_0_conv)
  then show all: "\<forall>x \<in> set (workers e). x = Returned"
    by (simp add: filter_empty_conv)
  have "0 < length (workers e)" using sh w ps by (auto simp: shape_inv_def min_def)
  then have "Returned \<in> set (workers e)" using all by (cases "workers e") auto
  then show cj: "closed (portsCh e)" and b: "buf (portsCh e) = []"
    using ord by (auto simp: order_inv_def)
  show p: "pending e = []" using ord cj by (simp add: order_inv_def)
  have nd: "concat (map holds_dial (workers e)) = []" using all by (auto simp: concat_eq_Nil_conv)
  have ns: "concat (map holds_send (workers e)) = []" using all by (auto simp: concat_eq_Nil_conv)
  show d: "mset (dialed e) = mset ps" using jobs p b nd by (simp add: jobs_inv_def)
  have "mset (open_ports e) = mset (filter accept (dialed e))"
    using res ns by (simp add: results_inv_def)
  also have "\<dots> = mset (filter accept ps)" using d by (metis mset_filter)
  finally have "sort (open_ports e) = sort (filter accept ps)"
    by (metis properties_for_sort sorted_sort mset_sort)
  moreover have "out = sort (open_ports e)" using ord fin by (simp add: order_inv_def)
  ultimately show "out = sort (filter accept ps)" by simp
qed

lemma sort_filter_set:
  assumes "distinct ps" "S \<subseteq> set ps" "\<forall>p. accept p \<longleftrightarrow> p \<in> S"
  shows "sort (filter accept ps) = sorted_list_of_set S"
proof -
  have "set (filter accept ps) = S" using assms(2,3) by auto
  moreover have "distinct (filter accept ps)" using assms(1) by simp
  ultimately show ?thesis by (metis sorted_list_of_set_sort_remdups distinct_remdups_id)
qed

lemma dialed_sub:
  assumes "jobs_inv ps e"
  shows "mset (dialed e) \<subseteq># mset ps"
proof -
  have "mset ps = mset (dialed e)
      + (mset (pending e) + mset (buf (portsCh e)) + mset (concat (map holds_dial (workers e))))"
    using assms by (simp add: jobs_inv_def ac_simps)
  then show ?thesis by simp
qed

lemma distinct_sub:
  assumes "mset xs \<subseteq># mset ys" "distinct ys"
  shows "distinct xs"
proof -
  have "count (mset xs) a = (if a \<in> set xs then 1 else 0)" for a
  proof (cases "a \<in> set xs")
    case True
    then have "1 \<le> count (mset xs) a" by (simp add: Suc_le_eq)
    moreover have "count (mset xs) a \<le> count (mset ys) a"
      by (rule mset_subset_eq_count[OF assms(1)])
    moreover have "count (mset ys) a \<le> 1" using count_distinct[OF assms(2), of a] by simp
    ultimately have "count (mset xs) a = 1" by linarith
    then show ?thesis using True by simp
  next
    case False
    then show ?thesis by (simp add: count_mset_0_iff)
  qed
  then show ?thesis by (simp add: distinct_count_atmost_1)
qed

text \<open>
  \<open>main\<close> starts the engine only with what the claims below assume: a worker count of
  1 to 10000 and a port set that is not empty, ascending and without duplicates.
\<close>

lemma main_Scan:
  assumes "main f = Scan e"
  shows "\<exists>ps. parsePorts (portsFlag f) = Inr ps \<and> e = start (workersFlag f) ps
            \<and> ps \<noteq> [] \<and> sorted ps \<and> distinct ps
            \<and> 1 \<le> workersFlag f \<and> workersFlag f \<le> 10000"
proof -
  from assms obtain ps where ps: "parsePorts (portsFlag f) = Inr ps" "ps \<noteq> []"
    "e = start (workersFlag f) ps" "1 \<le> workersFlag f" "workersFlag f \<le> 10000"
    by (auto simp: main_def split: if_splits sum.splits)
  then show ?thesis using parsePorts_sorted_distinct[OF ps(1)] by blast
qed

section \<open>The engine: claims\<close>

text \<open>
  Claim C1, as the specification states it: the job channel's capacity is the effective
  worker count \<open>min(workerCount, |ports|)\<close>, so \<open>|ports|\<close> when more workers are requested
  than there are ports. The program makes the channel from \<open>*workersFlag\<close> before it
  clamps the worker count: with five workers requested for the one port of \<open>"80"\<close>, the
  capacity is 5 and the effective worker count is 1.
\<close>

theorem job_channel_capacity_counterexample:
  "main \<lparr>hostFlag = ''localhost'', portsFlag = ''80'', workersFlag = 5, timeoutFlag = 500\<rparr>
     = Scan (start 5 [80])
   \<and> cap (portsCh (start 5 [80])) = 5
   \<and> numWorkers (start 5 [80]) = 1
   \<and> min 5 (int (length [80 :: int])) = 1
   \<and> cap (portsCh (start 5 [80])) \<noteq> nat (min 5 (int (length [80 :: int])))
   \<and> cap (portsCh (start 5 [80])) \<noteq> length [80 :: int]"
proof -
  have "parsePorts ''80'' = Inr [80]" by code_simp
  then show ?thesis by (simp add: main_def start_def make_chan_def)
qed

text \<open>
  Claim C1, amended: the job channel is made with a buffer of the requested worker
  count, and keeps it; the result channel is made without buffer and never holds a
  value. The capacity of the job channel is the effective worker count exactly when no
  more workers are requested than there are ports; with more requested, it is the
  requested count while the effective count is \<open>|ports|\<close>.
\<close>

theorem job_channel_capacity:
  assumes "0 \<le> w" and "exec accept sched (start w ps) = Some e"
  shows "cap (portsCh (start w ps)) = nat w \<and> cap (resultsCh (start w ps)) = 0
       \<and> cap (portsCh e) = nat w \<and> cap (resultsCh e) = 0 \<and> buf (resultsCh e) = []
       \<and> length (buf (portsCh e)) \<le> nat w
       \<and> (w \<le> int (length ps) \<longrightarrow> cap (portsCh e) = nat (numWorkers e))
       \<and> (int (length ps) < w \<longrightarrow> cap (portsCh e) = nat w \<and> numWorkers e = int (length ps))"
proof -
  have "engine_inv accept w ps e"
    by (rule engine_inv_exec[OF assms(2) engine_inv_start[OF assms(1)]])
  then have "shape_inv w ps e" by (simp add: engine_inv_def)
  then show ?thesis by (auto simp: shape_inv_def start_def make_chan_def Let_def)
qed

theorem job_channel_capacity_witness:
  "cap (portsCh (start 5 [80])) = nat 5 \<and> cap (resultsCh (start 5 [80])) = 0
   \<and> (\<exists>e. exec (\<lambda>p. True) [Distribute, Receive 0] (start 5 [80]) = Some e
          \<and> cap (portsCh e) = nat 5 \<and> numWorkers e = int (length [80 :: int]))"
proof -
  have "exec (\<lambda>p. True) [Distribute, Receive 0] (start 5 [80]) \<noteq> None" by code_simp
  then obtain e where e: "exec (\<lambda>p. True) [Distribute, Receive 0] (start 5 [80]) = Some e"
    by blast
  have w: "(0::int) \<le> 5" by simp
  show ?thesis using job_channel_capacity[OF w e] e by simp
qed



text \<open>
  Claim C2. For a non-empty port set, a worker count of at least 1 and a dial oracle
  that accepts exactly the ports of a subset \<open>S\<close> of the port set: the engine has a
  complete run, and whatever the interleaving, the sequence a complete run returns is
  the ascending list of \<open>S\<close>. The worker count does not occur in the result.
\<close>

theorem scan_correct:
  assumes "ps \<noteq> []" and "distinct ps" and "1 \<le> w"
    and "S \<subseteq> set ps" and "\<forall>p. accept p \<longleftrightarrow> p \<in> S"
  shows "(\<exists>sched e. exec accept sched (start w ps) = Some e \<and> result e \<noteq> None)
       \<and> (\<forall>sched e out. exec accept sched (start w ps) = Some e \<and> result e = Some out
            \<longrightarrow> out = sorted_list_of_set S)"
proof (intro conjI allI impI)
  have w0: "0 \<le> w" using assms(3) by simp
  show "\<exists>sched e. exec accept sched (start w ps) = Some e \<and> result e \<noteq> None"
    by (rule can_finish[OF engine_inv_start[OF w0] assms(3)])
  fix sched e out
  assume run: "exec accept sched (start w ps) = Some e \<and> result e = Some out"
  then have "engine_inv accept w ps e"
    using engine_inv_exec[OF _ engine_inv_start[OF w0]] by blast
  then have "out = sort (filter accept ps)"
    using finished_state(7)[OF _ assms(3) assms(1)] run by blast
  then show "out = sorted_list_of_set S"
    using sort_filter_set[OF assms(2,4,5)] by simp
qed

theorem scan_correct_witness:
  "\<exists>e. exec (\<lambda>p. p \<in> {80, 443})
          [Distribute, Distribute, Receive 0, Distribute, Receive 1, Dial 1, Dial 0, Receive 0,
           Dial 0, Report 0, Report 1, CloseJobs, Leave 1, Leave 0, CloseResults, Finish]
          (start 2 [22, 80, 443]) = Some e
      \<and> result e = Some [80, 443]"
proof -
  let ?sched = "[Distribute, Distribute, Receive 0, Distribute, Receive 1, Dial 1, Dial 0, Receive 0,
           Dial 0, Report 0, Report 1, CloseJobs, Leave 1, Leave 0, CloseResults, Finish]"
  have "map_option (\<lambda>e. result e \<noteq> None) (exec (\<lambda>p. p \<in> {80, 443}) ?sched (start 2 [22, 80, 443])) = Some True"
    by code_simp
  then obtain e out where e: "exec (\<lambda>p. p \<in> {80, 443}) ?sched (start 2 [22, 80, 443]) = Some e"
    and out: "result e = Some out"
    by auto
  have h: "[22, 80, 443 :: int] \<noteq> []" "distinct [22, 80, 443 :: int]" "(1::int) \<le> 2"
    "{80, 443} \<subseteq> set [22, 80, 443 :: int]" "\<forall>p::int. p \<in> {80, 443} \<longleftrightarrow> p \<in> {80, 443}"
    by simp_all
  have "out = sorted_list_of_set {80, 443 :: int}"
    using scan_correct[OF h] e out by blast
  moreover have "sorted_list_of_set {80, 443 :: int} = [80, 443]" by code_simp
  ultimately show ?thesis using e out by simp
qed

text \<open>
  Claim C3. For a non-empty port set of size \<open>K\<close> and a worker count of at least 1 (so
  for every count in \<open>[1, K]\<close>), whatever the interleaving: at no point of a run has a port
  been dialed twice, or a port outside the set been dialed; and when the run is complete
  exactly \<open>K\<close> dials were made, one for each port of the set.
\<close>

theorem each_port_dialed_once:
  assumes "ps \<noteq> []" and "distinct ps" and "1 \<le> w"
    and "exec accept sched (start w ps) = Some e"
  shows "distinct (dialed e) \<and> set (dialed e) \<subseteq> set ps
       \<and> (result e \<noteq> None \<longrightarrow>
            length (dialed e) = length ps \<and> mset (dialed e) = mset ps
            \<and> (\<forall>p. count_list (dialed e) p = (if p \<in> set ps then 1 else 0)))"
proof -
  have w0: "0 \<le> w" using assms(3) by simp
  have inv: "engine_inv accept w ps e"
    by (rule engine_inv_exec[OF assms(4) engine_inv_start[OF w0]])
  then have "jobs_inv ps e" by (simp add: engine_inv_def)
  then have sub: "mset (dialed e) \<subseteq># mset ps" by (rule dialed_sub)
  have d: "distinct (dialed e)" by (rule distinct_sub[OF sub assms(2)])
  have s: "set (dialed e) \<subseteq> set ps" using set_mset_mono[OF sub] by simp
  have fin: "result e \<noteq> None \<longrightarrow> length (dialed e) = length ps \<and> mset (dialed e) = mset ps
      \<and> (\<forall>p. count_list (dialed e) p = (if p \<in> set ps then 1 else 0))"
  proof
    assume "result e \<noteq> None"
    then obtain out where "result e = Some out" by auto
    from finished_state(6)[OF inv assms(3) assms(1) this]
    have m: "mset (dialed e) = mset ps" .
    have l: "length (dialed e) = length ps" using arg_cong[OF m, of size] by simp
    have c: "count_list (dialed e) p = (if p \<in> set ps then 1 else 0)" for p
    proof -
      have "count_list (dialed e) p = count (mset (dialed e)) p" by (simp add: count_mset)
      also have "\<dots> = count (mset ps) p" by (simp only: m)
      also have "\<dots> = (if p \<in> set ps then 1 else 0)" by (rule count_distinct[OF assms(2)])
      finally show ?thesis .
    qed
    show "length (dialed e) = length ps \<and> mset (dialed e) = mset ps
      \<and> (\<forall>p. count_list (dialed e) p = (if p \<in> set ps then 1 else 0))"
      using l m c by (intro conjI allI)
  qed
  show ?thesis by (intro conjI d s fin)
qed

theorem each_port_dialed_once_witness:
  "\<exists>e. exec (\<lambda>p. p \<in> {80, 443})
          [Distribute, Distribute, Receive 0, Distribute, Receive 1, Dial 1, Dial 0, Receive 0,
           Dial 0, Report 0, Report 1, CloseJobs, Leave 1, Leave 0, CloseResults, Finish]
          (start 2 [22, 80, 443]) = Some e
      \<and> result e \<noteq> None \<and> length (dialed e) = 3 \<and> mset (dialed e) = mset [22, 80, 443]"
proof -
  let ?sched = "[Distribute, Distribute, Receive 0, Distribute, Receive 1, Dial 1, Dial 0, Receive 0,
           Dial 0, Report 0, Report 1, CloseJobs, Leave 1, Leave 0, CloseResults, Finish]"
  have "map_option (\<lambda>e. result e \<noteq> None) (exec (\<lambda>p. p \<in> {80, 443}) ?sched (start 2 [22, 80, 443])) = Some True"
    by code_simp
  then obtain e where e: "exec (\<lambda>p. p \<in> {80, 443}) ?sched (start 2 [22, 80, 443]) = Some e"
    and r: "result e \<noteq> None"
    by auto
  have h: "[22, 80, 443 :: int] \<noteq> []" "distinct [22, 80, 443 :: int]" "(1::int) \<le> 2"
    by simp_all
  from each_port_dialed_once[OF h e] r
  have "length (dialed e) = length [22, 80, 443 :: int] \<and> mset (dialed e) = mset [22, 80, 443]"
    by blast
  then have "length (dialed e) = 3 \<and> mset (dialed e) = mset [22, 80, 443]"
    by simp
  with e r show ?thesis by blast
qed

text \<open>
  Claim C4. For a non-empty port set and a worker count of at least 1, under any dial
  oracle (also the one under which every dial fails or times out) and any interleaving:
  a run has at most \<open>4 * K + min(workerCount, K) + 3\<close> steps, so none goes on for ever;
  while \<open>main\<close> has not left its loop some goroutine can take a step, so none is stuck;
  hence every run can be continued to a complete one, and only to one. The shutdown
  goes in the order stated: the job channel is closed only after the last port was
  sent; a worker has returned only after the job channel was closed and drained; the
  result channel is closed only after every worker has returned; \<open>main\<close> leaves its loop
  only after the result channel was closed.
\<close>

theorem engine_terminates:
  assumes "ps \<noteq> []" and "1 \<le> w" and "exec accept sched (start w ps) = Some e"
  shows "length sched \<le> 4 * length ps + nat (min w (int (length ps))) + 3
       \<and> (result e = None \<longrightarrow> (\<exists>a e'. step accept a e = Some e'))
       \<and> (\<exists>rest e'. exec accept (sched @ rest) (start w ps) = Some e' \<and> result e' \<noteq> None)
       \<and> (closed (portsCh e) \<longrightarrow> pending e = [])
       \<and> (Returned \<in> set (workers e) \<longrightarrow>
            closed (portsCh e) \<and> pending e = [] \<and> buf (portsCh e) = [])
       \<and> (closed (resultsCh e) \<longrightarrow> (\<forall>x \<in> set (workers e). x = Returned))
       \<and> (result e \<noteq> None \<longrightarrow> closed (resultsCh e))"
proof -
  have w0: "0 \<le> w" using assms(2) by simp
  have inv: "engine_inv accept w ps e"
    by (rule engine_inv_exec[OF assms(3) engine_inv_start[OF w0]])
  then have sh: "shape_inv w ps e" and ord: "order_inv e" by (auto simp: engine_inv_def)
  have bound: "length sched \<le> 4 * length ps + nat (min w (int (length ps))) + 3"
    using exec_length[OF assms(3)] steps_left_start[OF w0, of ps] by simp
  have live: "result e = None \<longrightarrow> (\<exists>a e'. step accept a e = Some e')"
    using can_step[OF sh ord assms(2)] by blast
  from can_finish[OF inv assms(2)] obtain rest e' where
    "exec accept rest e = Some e'" "result e' \<noteq> None" by blast
  then have "exec accept (sched @ rest) (start w ps) = Some e' \<and> result e' \<noteq> None"
    using assms(3) by (simp add: exec_append)
  then have compl: "\<exists>rest e'. exec accept (sched @ rest) (start w ps) = Some e' \<and> result e' \<noteq> None"
    by blast
  have last_job: "closed (portsCh e) \<longrightarrow> pending e = []"
    using ord unfolding order_inv_def by blast
  have jobs_first: "Returned \<in> set (workers e) \<longrightarrow>
      closed (portsCh e) \<and> pending e = [] \<and> buf (portsCh e) = []"
    using ord unfolding order_inv_def by blast
  have "wg e = 0 \<longrightarrow> (\<forall>x \<in> set (workers e). x = Returned)"
  proof
    assume "wg e = 0"
    moreover have "wg e = length (filter (\<lambda>x. x \<noteq> Returned) (workers e))"
      using ord unfolding order_inv_def by blast
    ultimately have "filter (\<lambda>x. x \<noteq> Returned) (workers e) = []" by (metis length_0_conv)
    then show "\<forall>x \<in> set (workers e). x = Returned" by (simp add: filter_empty_conv)
  qed
  moreover have "closed (resultsCh e) \<longrightarrow> wg e = 0"
    using ord unfolding order_inv_def by (elim conjE)
  ultimately have workers_first:
    "closed (resultsCh e) \<longrightarrow> (\<forall>x \<in> set (workers e). x = Returned)"
    by (intro impI) (elim impE, assumption+)
  have results_first: "result e \<noteq> None \<longrightarrow> closed (resultsCh e)"
    using ord unfolding order_inv_def by blast
  show ?thesis
    by (intro conjI bound live compl last_job jobs_first workers_first results_first)
qed

theorem engine_terminates_witness:
  "\<exists>e. exec (\<lambda>p. False) [Distribute, Receive 0, Dial 0] (start 2 [22, 80]) = Some e
      \<and> (\<exists>rest e'. exec (\<lambda>p. False) ([Distribute, Receive 0, Dial 0] @ rest) (start 2 [22, 80]) = Some e'
            \<and> result e' \<noteq> None)"
proof -
  let ?sched = "[Distribute, Receive 0, Dial 0]"
  have "exec (\<lambda>p. False) ?sched (start 2 [22, 80]) \<noteq> None" by code_simp
  then obtain e where e: "exec (\<lambda>p. False) ?sched (start 2 [22, 80]) = Some e" by blast
  have h: "[22, 80 :: int] \<noteq> []" "(1::int) \<le> 2" by simp_all
  show ?thesis using engine_terminates[OF h e] e by blast
qed

end
